theory Spec2Isabelle
  imports Complex_Main "HOL-Library.Multiset"
begin

section \<open>Data model\<close>

text \<open>
  The scene-graph core of the repository is the class \<open>Scene\<close>. It works on two stores:
  the scenes dictionary \<open>scenesService.state.scenes\<close> (scene id to \<open>IScene\<close> record) and
  the source registry behind \<open>sourcesService.getSource\<close>. Both are dictionaries keyed by
  id, so the model reads \<open>this.id\<close> and \<open>source.sourceId\<close> as the key under which the
  record is stored. JavaScript numbers are modelled as \<open>real\<close> (geometry) and \<open>int\<close>
  (backend handles and indices).

  Exceptions are values: \<open>Inl e\<close> is a thrown error. A call that never returns (unbounded
  recursion, which a JavaScript engine ends with a stack overflow) is \<open>None\<close> of the outer
  \<open>option\<close>. An operation that mutates the store returns the store as well, also when
  it throws: a mutation made before the throw stays.
\<close>

datatype error = SourceNotFound string | SceneItemNotFound string | TypeError

type_synonym 'a result = "error + 'a"

record ICrop =
  crop_top :: real
  crop_bottom :: real
  crop_left :: real
  crop_right :: real

record ISceneItem =
  sceneItemId :: string
  sourceId :: string
  obsSceneItemId :: int
  pos_x :: real
  pos_y :: real
  scaleX :: real
  scaleY :: real
  visible :: bool
  crop :: ICrop
  rotation :: real
  locked :: bool

text \<open>
  \<open>items\<close> is declared \<open>ISceneItem[]\<close>, but \<open>SET_SOURCE_ORDER\<close> stores whatever
  \<open>Array.find\<close> returns, which is \<open>undefined\<close> for an unknown id. A slot of the array is
  therefore an \<open>ISceneItem option\<close>, \<open>None\<close> being \<open>undefined\<close>.
\<close>

record IScene =
  name :: string
  activeItemIds :: "string list"
  items :: "ISceneItem option list"

record Source =
  sourceType :: string
  sourceName :: string

record world =
  scenes :: "string \<rightharpoonup> IScene"
  sources :: "string \<rightharpoonup> Source"

text \<open>The handle \<open>new SceneItem(this.id, sceneItemId, sourceId)\<close> built by \<open>getItem\<close>.\<close>

record SceneItem =
  h_sceneId :: string
  h_sceneItemId :: string
  h_sourceId :: string

text \<open>What the compositing backend reports for a native item.\<close>

record ObsSceneItem =
  obs_id :: int
  obs_x :: real
  obs_y :: real
  obs_scaleX :: real
  obs_scaleY :: real
  obs_visible :: bool
  obs_crop :: ICrop
  obs_rotation :: real

record ISceneItemAddOptions =
  opt_sceneItemId :: "string option"

record ISceneItemInfo =
  info_id :: string
  info_sourceId :: string
  info_crop :: ICrop
  info_scaleX :: "real option"
  info_scaleY :: "real option"
  info_visible :: bool
  info_x :: "real option"
  info_y :: "real option"
  info_locked :: bool
  info_rotation :: "real option"

text \<open>An entry of \<open>arrayItems\<close> in \<open>addSources\<close>: the info with its defaults applied.\<close>

record ArrayItem =
  arr_name :: string
  arr_id :: string
  arr_sourceId :: string
  arr_crop :: ICrop
  arr_scaleX :: real
  arr_scaleY :: real
  arr_visible :: bool
  arr_x :: real
  arr_y :: real
  arr_locked :: bool
  arr_rotation :: real

section \<open>Sequencing helpers\<close>

text \<open>\<open>Array.map\<close> with a callback that may throw: the first throw ends the map.\<close>

fun mapR :: "('a \<Rightarrow> 'b result) \<Rightarrow> 'a list \<Rightarrow> 'b list result" where
  "mapR f [] = Inr []"
| "mapR f (a # as) =
     (case f a of
        Inl e \<Rightarrow> Inl e
      | Inr b \<Rightarrow> (case mapR f as of Inl e \<Rightarrow> Inl e | Inr bs \<Rightarrow> Inr (b # bs)))"

text \<open>The same for callbacks that may also fail to return.\<close>

fun mapM :: "('a \<Rightarrow> 'b result option) \<Rightarrow> 'a list \<Rightarrow> 'b list result option" where
  "mapM f [] = Some (Inr [])"
| "mapM f (a # as) =
     (case f a of
        None \<Rightarrow> None
      | Some (Inl e) \<Rightarrow> Some (Inl e)
      | Some (Inr b) \<Rightarrow>
          (case mapM f as of
             None \<Rightarrow> None
           | Some (Inl e) \<Rightarrow> Some (Inl e)
           | Some (Inr bs) \<Rightarrow> Some (Inr (b # bs))))"

text \<open>Sequencing of two store operations; a throw skips the second.\<close>

fun bindS :: "'a result \<times> world \<Rightarrow> ('a \<Rightarrow> world \<Rightarrow> 'b result \<times> world) \<Rightarrow> 'b result \<times> world" where
  "bindS (Inl e, w) f = (Inl e, w)"
| "bindS (Inr a, w) f = f a w"

text \<open>lodash \<open>_.uniqBy(xs, key)\<close>: the first element of every key, in order.\<close>

fun uniqByFrom :: "('a \<Rightarrow> 'k) \<Rightarrow> 'k list \<Rightarrow> 'a list \<Rightarrow> 'a list" where
  "uniqByFrom key seen [] = []"
| "uniqByFrom key seen (a # as) =
     (if key a \<in> set seen then uniqByFrom key seen as
      else a # uniqByFrom key (seen @ [key a]) as)"

definition uniqBy :: "'a list \<Rightarrow> ('a \<Rightarrow> 'k) \<Rightarrow> 'a list" where
  "uniqBy xs key = uniqByFrom key [] xs"

section \<open>Reading a scene\<close>

text \<open>
  \<open>items.find(m => m.sceneItemId === id)\<close>: the callback reads a field of the slot, so an
  undefined slot met before a match throws a TypeError.
\<close>

fun findItem :: "string \<Rightarrow> ISceneItem option list \<Rightarrow> ISceneItem option result" where
  "findItem i [] = Inr None"
| "findItem i (None # rest) = Inl TypeError"
| "findItem i (Some m # rest) = (if sceneItemId m = i then Inr (Some m) else findItem i rest)"

text \<open>\<open>this.sceneState\<close> of a handle whose scene is not in the store is undefined.\<close>

definition sceneState :: "world \<Rightarrow> string \<Rightarrow> IScene result" where
  "sceneState w this = (case scenes w this of None \<Rightarrow> Inl TypeError | Some sc \<Rightarrow> Inr sc)"

definition getItem :: "world \<Rightarrow> string \<Rightarrow> string \<Rightarrow> SceneItem option result" where
  "getItem w this i =
     (case sceneState w this of
        Inl e \<Rightarrow> Inl e
      | Inr sc \<Rightarrow>
          (case findItem i (items sc) of
             Inl e \<Rightarrow> Inl e
           | Inr None \<Rightarrow> Inr None
           | Inr (Some m) \<Rightarrow>
               Inr (Some \<lparr>h_sceneId = this, h_sceneItemId = sceneItemId m,
                          h_sourceId = sourceId m\<rparr>)))"

text \<open>
  \<open>getItems\<close> maps \<open>getItem\<close> over the ids of the slots. \<open>getItem\<close> cannot return null
  here (the slot looked up matches itself, see \<open>findItem_member\<close> below); the branch
  is kept as the TypeError its first use would raise.
\<close>

definition getItems :: "world \<Rightarrow> string \<Rightarrow> SceneItem list result" where
  "getItems w this =
     (case sceneState w this of
        Inl e \<Rightarrow> Inl e
      | Inr sc \<Rightarrow>
          mapR (\<lambda>slot. case slot of
                  None \<Rightarrow> Inl TypeError
                | Some sourceModel \<Rightarrow>
                    (case getItem w this (sceneItemId sourceModel) of
                       Inl e \<Rightarrow> Inl e
                     | Inr None \<Rightarrow> Inl TypeError
                     | Inr (Some h) \<Rightarrow> Inr h))
               (items sc))"

fun getItemIndexFrom :: "string \<Rightarrow> ISceneItem option list \<Rightarrow> int \<Rightarrow> int result" where
  "getItemIndexFrom i [] k = Inr (- 1)"
| "getItemIndexFrom i (None # rest) k = Inl TypeError"
| "getItemIndexFrom i (Some m # rest) k =
     (if sceneItemId m = i then Inr k else getItemIndexFrom i rest (k + 1))"

definition getItemIndex :: "world \<Rightarrow> string \<Rightarrow> string \<Rightarrow> int result" where
  "getItemIndex w this i =
     (case sceneState w this of
        Inl e \<Rightarrow> Inl e
      | Inr sc \<Rightarrow> getItemIndexFrom i (items sc) 0)"

text \<open>
  Modelled from the spec: the getter \<open>SceneItem.type\<close> is not in the source. The spec
  treats a source as an id with a type tag and calls a child scene "a source of type scene
  used by one of this scene's items": the type of an item is the type tag of the source its
  \<open>sourceId\<close> resolves to, and an item whose source does not resolve has no type.
\<close>

definition isSceneItem :: "world \<Rightarrow> SceneItem \<Rightarrow> bool" where
  "isSceneItem w h =
     (case sources w (h_sourceId h) of None \<Rightarrow> False | Some s \<Rightarrow> sourceType s = ''scene'')"

text \<open>
  Modelled from the spec: \<open>ScenesService.getScene\<close> is not in the source. It hands out
  \<open>Scene(sceneId)\<close>, which "binds to an already-registered scene record; fails if the id
  is unknown". A scene handle is the scene's id.
\<close>

definition getScene :: "world \<Rightarrow> string \<Rightarrow> string result" where
  "getScene w sceneId = (if scenes w sceneId = None then Inl TypeError else Inr sceneId)"

section \<open>Cycle detection\<close>

definition childScenes :: "world \<Rightarrow> string \<Rightarrow> string list result" where
  "childScenes w this =
     (case getItems w this of
        Inl e \<Rightarrow> Inl e
      | Inr hs \<Rightarrow> mapR (\<lambda>sceneItem. getScene w (h_sourceId sceneItem))
                      (filter (isSceneItem w) hs))"

text \<open>
  The loop \<open>for (const childScene of childScenes)\<close> of \<open>hasNestedScene\<close>; \<open>rec\<close> is the
  recursive call \<open>childScene.hasNestedScene(sceneId)\<close>.
\<close>

fun anyChild :: "(string \<Rightarrow> bool result option) \<Rightarrow> string \<Rightarrow> string list \<Rightarrow> bool result option" where
  "anyChild rec sceneId [] = Some (Inr False)"
| "anyChild rec sceneId (childScene # rest) =
     (if childScene = sceneId then Some (Inr True)
      else case rec childScene of
             None \<Rightarrow> None
           | Some (Inl e) \<Rightarrow> Some (Inl e)
           | Some (Inr True) \<Rightarrow> Some (Inr True)
           | Some (Inr False) \<Rightarrow> anyChild rec sceneId rest)"

lemma anyChild_mono [partial_function_mono]:
  fixes F :: "('x \<Rightarrow> 'y option) \<Rightarrow> string \<Rightarrow> bool result option"
  assumes F: "\<And>c. mono_option (\<lambda>f. F f c)"
  shows "mono_option (\<lambda>f. anyChild (F f) sceneId cs)"
proof (induction cs)
  case Nil
  show ?case by (simp add: option.const_mono)
next
  case (Cons c cs)
  show ?case
  proof (rule monotoneI)
    fix f g :: "'x \<Rightarrow> 'y option"
    assume fg: "fun_ord option_ord f g"
    have 1: "option_ord (F f c) (F g c)"
      using F by (rule monotoneD) (rule fg)
    have 2: "option_ord (anyChild (F f) sceneId cs) (anyChild (F g) sceneId cs)"
      using Cons by (rule monotoneD) (rule fg)
    show "option_ord (anyChild (F f) sceneId (c # cs)) (anyChild (F g) sceneId (c # cs))"
      using 1 2 by (auto simp: flat_ord_def split: option.splits sum.splits bool.splits)
  qed
qed

lemma mapM_mono [partial_function_mono]:
  fixes F :: "('x \<Rightarrow> 'y option) \<Rightarrow> 'a \<Rightarrow> 'b result option"
  assumes F: "\<And>c. mono_option (\<lambda>f. F f c)"
  shows "mono_option (\<lambda>f. mapM (F f) cs)"
proof (induction cs)
  case Nil
  show ?case by (simp add: option.const_mono)
next
  case (Cons c cs)
  show ?case
  proof (rule monotoneI)
    fix f g :: "'x \<Rightarrow> 'y option"
    assume fg: "fun_ord option_ord f g"
    have 1: "option_ord (F f c) (F g c)"
      using F by (rule monotoneD) (rule fg)
    have 2: "option_ord (mapM (F f) cs) (mapM (F g) cs)"
      using Cons by (rule monotoneD) (rule fg)
    show "option_ord (mapM (F f) (c # cs)) (mapM (F g) (c # cs))"
    proof (cases "F f c")
      case None
      then show ?thesis by (simp add: flat_ord_def)
    next
      case head: (Some r)
      then have g: "F g c = Some r"
        using 1 by (simp add: flat_ord_def)
      show ?thesis
      proof (cases "mapM (F f) cs")
        case None
        then show ?thesis
          using head g by (cases r) (simp_all add: flat_ord_def)
      next
        case tail: (Some rs)
        then have "mapM (F g) cs = Some rs"
          using 2 by (simp add: flat_ord_def)
        then show ?thesis
          using head g tail by (cases r) (simp_all add: flat_ord_def)
      qed
    qed
  qed
qed

partial_function (option) hasNestedScene :: "world \<Rightarrow> string \<Rightarrow> string \<Rightarrow> bool result option" where
  "hasNestedScene w this sceneId =
     (case childScenes w this of
        Inl e \<Rightarrow> Some (Inl e)
      | Inr cs \<Rightarrow> anyChild (\<lambda>childScene. hasNestedScene w childScene sceneId) sceneId cs)"

declare hasNestedScene.simps [code]

definition canAddSource :: "world \<Rightarrow> string \<Rightarrow> string \<Rightarrow> bool result option" where
  "canAddSource w this sid =
     (case sources w sid of
        None \<Rightarrow> Some (Inr False)
      | Some source \<Rightarrow>
          if sourceType source \<noteq> ''scene'' then Some (Inr True)
          else if this = sid then Some (Inr False)
          else (case getScene w sid of
                  Inl e \<Rightarrow> Some (Inl e)
                | Inr sceneToAdd \<Rightarrow>
                    (case hasNestedScene w sceneToAdd this of
                       None \<Rightarrow> None
                     | Some (Inl e) \<Rightarrow> Some (Inl e)
                     | Some (Inr b) \<Rightarrow> Some (Inr (\<not> b)))))"

section \<open>Nested traversal\<close>

partial_function (option) getNestedItems :: "world \<Rightarrow> string \<Rightarrow> bool \<Rightarrow> SceneItem list result option" where
  "getNestedItems w this excludeScenes =
     (case getItems w this of
        Inl e \<Rightarrow> Some (Inl e)
      | Inr own \<Rightarrow>
          Option.bind
            (mapM (\<lambda>sceneItem.
                     case getScene w (h_sourceId sceneItem) of
                       Inl e \<Rightarrow> Some (Inl e)
                     | Inr child \<Rightarrow> getNestedItems w child False)
                  (filter (isSceneItem w) own))
            (\<lambda>r. case r of
                   Inl e \<Rightarrow> Some (Inl e)
                 | Inr nested \<Rightarrow>
                     Some (Inr (uniqBy
                                  (filter (\<lambda>sceneItem. \<not> excludeScenes \<or> \<not> isSceneItem w sceneItem)
                                          (own @ concat nested))
                                  h_sceneItemId))))"

declare getNestedItems.simps [code]

section \<open>Mutations of the store\<close>

definition putScene :: "world \<Rightarrow> string \<Rightarrow> IScene \<Rightarrow> world" where
  "putScene w this sc = w\<lparr>scenes := (scenes w)(this \<mapsto> sc)\<rparr>"

definition SET_NAME :: "world \<Rightarrow> string \<Rightarrow> string \<Rightarrow> unit result \<times> world" where
  "SET_NAME w this newName =
     (case sceneState w this of
        Inl e \<Rightarrow> (Inl e, w)
      | Inr sc \<Rightarrow> (Inr (), putScene w this (sc\<lparr>name := newName\<rparr>)))"

definition MAKE_SOURCES_ACTIVE :: "world \<Rightarrow> string \<Rightarrow> string list \<Rightarrow> unit result \<times> world" where
  "MAKE_SOURCES_ACTIVE w this sceneItemIds =
     (case sceneState w this of
        Inl e \<Rightarrow> (Inl e, w)
      | Inr sc \<Rightarrow> (Inr (), putScene w this (sc\<lparr>activeItemIds := sceneItemIds\<rparr>)))"

definition newItem :: "string \<Rightarrow> string \<Rightarrow> int \<Rightarrow> ISceneItem" where
  "newItem i sid obsId =
     \<lparr>sceneItemId = i, sourceId = sid, obsSceneItemId = obsId,
      pos_x = 0, pos_y = 0, scaleX = 1, scaleY = 1, visible = True,
      crop = \<lparr>crop_top = 0, crop_bottom = 0, crop_left = 0, crop_right = 0\<rparr>,
      rotation = 0, locked = False\<rparr>"

definition ADD_SOURCE_TO_SCENE :: "world \<Rightarrow> string \<Rightarrow> string \<Rightarrow> string \<Rightarrow> int \<Rightarrow> unit result \<times> world" where
  "ADD_SOURCE_TO_SCENE w this i sid obsId =
     (case sceneState w this of
        Inl e \<Rightarrow> (Inl e, w)
      | Inr sc \<Rightarrow> (Inr (), putScene w this (sc\<lparr>items := Some (newItem i sid obsId) # items sc\<rparr>)))"

text \<open>
  \<open>items.filter(source => source.sceneItemId !== sceneItemId)\<close>; the callback throws on
  an undefined slot.
\<close>

fun withoutItem :: "string \<Rightarrow> ISceneItem option list \<Rightarrow> ISceneItem option list result" where
  "withoutItem i [] = Inr []"
| "withoutItem i (None # rest) = Inl TypeError"
| "withoutItem i (Some m # rest) =
     (case withoutItem i rest of
        Inl e \<Rightarrow> Inl e
      | Inr kept \<Rightarrow> Inr (if sceneItemId m \<noteq> i then Some m # kept else kept))"

text \<open>
  The two assignments of \<open>REMOVE_SOURCE_FROM_SCENE\<close> happen in order: when the filter
  throws, \<open>activeItemIds\<close> has already been replaced. \<open>_.without\<close> drops every occurrence.
\<close>

definition REMOVE_SOURCE_FROM_SCENE :: "world \<Rightarrow> string \<Rightarrow> string \<Rightarrow> unit result \<times> world" where
  "REMOVE_SOURCE_FROM_SCENE w this i =
     (case sceneState w this of
        Inl e \<Rightarrow> (Inl e, w)
      | Inr sc \<Rightarrow>
          (let sc1 = (if i \<in> set (activeItemIds sc)
                      then sc\<lparr>activeItemIds := removeAll i (activeItemIds sc)\<rparr> else sc)
           in case withoutItem i (items sc1) of
                Inl e \<Rightarrow> (Inl e, putScene w this sc1)
              | Inr kept \<Rightarrow> (Inr (), putScene w this (sc1\<lparr>items := kept\<rparr>))))"

definition SET_SOURCE_ORDER :: "world \<Rightarrow> string \<Rightarrow> string list \<Rightarrow> unit result \<times> world" where
  "SET_SOURCE_ORDER w this order =
     (case sceneState w this of
        Inl e \<Rightarrow> (Inl e, w)
      | Inr sc \<Rightarrow>
          (case mapR (\<lambda>i. findItem i (items sc)) order of
             Inl e \<Rightarrow> (Inl e, w)
           | Inr slots \<Rightarrow> (Inr (), putScene w this (sc\<lparr>items := slots\<rparr>))))"

section \<open>Item handles\<close>

text \<open>
  Modelled from the spec: the class \<open>SceneItem\<close> is not in the source. The spec calls it
  "a handle over one row of per-item state" whose operations on a \<open>sceneItemId\<close> that no
  longer exists in the owning scene "fail fast": a handle reads and writes the first row
  of its \<open>sceneItemId\<close> in its scene, and throws when there is none.
\<close>

definition sceneItemState :: "world \<Rightarrow> SceneItem \<Rightarrow> ISceneItem result" where
  "sceneItemState w h =
     (case sceneState w (h_sceneId h) of
        Inl e \<Rightarrow> Inl e
      | Inr sc \<Rightarrow>
          (case findItem (h_sceneItemId h) (items sc) of
             Inl e \<Rightarrow> Inl e
           | Inr None \<Rightarrow> Inl TypeError
           | Inr (Some m) \<Rightarrow> Inr m))"

fun updateItem :: "string \<Rightarrow> (ISceneItem \<Rightarrow> ISceneItem) \<Rightarrow> ISceneItem option list \<Rightarrow> ISceneItem option list result" where
  "updateItem i f [] = Inl TypeError"
| "updateItem i f (None # rest) = Inl TypeError"
| "updateItem i f (Some m # rest) =
     (if sceneItemId m = i then Inr (Some (f m) # rest)
      else case updateItem i f rest of
             Inl e \<Rightarrow> Inl e
           | Inr rest' \<Rightarrow> Inr (Some m # rest'))"

definition UPDATE :: "world \<Rightarrow> SceneItem \<Rightarrow> (ISceneItem \<Rightarrow> ISceneItem) \<Rightarrow> unit result \<times> world" where
  "UPDATE w h f =
     (case sceneState w (h_sceneId h) of
        Inl e \<Rightarrow> (Inl e, w)
      | Inr sc \<Rightarrow>
          (case updateItem (h_sceneItemId h) f (items sc) of
             Inl e \<Rightarrow> (Inl e, w)
           | Inr slots \<Rightarrow> (Inr (), putScene w (h_sceneId h) (sc\<lparr>items := slots\<rparr>))))"

text \<open>
  Modelled from the spec: \<open>SceneItem.loadAttributes\<close> is not in the source. It "pulls
  current state from the backend item to populate position/scale/crop/rotation/visibility
  after creation". The backend item is a parameter.
\<close>

definition fromObs :: "ObsSceneItem \<Rightarrow> ISceneItem \<Rightarrow> ISceneItem" where
  "fromObs obsItem m =
     m\<lparr>pos_x := obs_x obsItem, pos_y := obs_y obsItem,
       scaleX := obs_scaleX obsItem, scaleY := obs_scaleY obsItem,
       visible := obs_visible obsItem, crop := obs_crop obsItem,
       rotation := obs_rotation obsItem\<rparr>"

definition loadAttributes :: "world \<Rightarrow> SceneItem \<Rightarrow> ObsSceneItem \<Rightarrow> unit result \<times> world" where
  "loadAttributes w h obsItem = UPDATE w h (fromObs obsItem)"

text \<open>
  Modelled from the spec: \<open>SceneItem.loadItemAttributes\<close> is not in the source; it is the
  "bulk variant used during restore", which takes the attributes from the entry handed to
  the backend instead.
\<close>

definition fromArrayItem :: "ArrayItem \<Rightarrow> ISceneItem \<Rightarrow> ISceneItem" where
  "fromArrayItem a m =
     m\<lparr>pos_x := arr_x a, pos_y := arr_y a,
       scaleX := arr_scaleX a, scaleY := arr_scaleY a,
       visible := arr_visible a, crop := arr_crop a,
       rotation := arr_rotation a, locked := arr_locked a\<rparr>"

definition loadItemAttributes :: "world \<Rightarrow> SceneItem \<Rightarrow> ArrayItem \<Rightarrow> unit result \<times> world" where
  "loadItemAttributes w h a = UPDATE w h (fromArrayItem a)"

section \<open>Operations of a scene\<close>

text \<open>
  The compositing backend is not part of the logical store. Its commands (\<open>add\<close>,
  \<open>remove\<close>, \<open>moveItem\<close>, \<open>selected\<close>) are left out, and what flows back from it (the
  native item created by \<open>add\<close> and \<open>addItems\<close>) is a parameter, as is the id that
  \<open>ipcRenderer.sendSync('getUniqueId')\<close> returns. The \<open>itemAdded\<close> and \<open>itemRemoved\<close>
  notifications do not touch the store either.
\<close>

text \<open>
  Modelled from the spec: \<open>Source.setName\<close> is not in the source; rename "renames the
  underlying source".
\<close>

definition setName :: "world \<Rightarrow> string \<Rightarrow> string \<Rightarrow> unit result \<times> world" where
  "setName w this newName =
     (case sources w this of
        None \<Rightarrow> (Inl TypeError, w)
      | Some sceneSource \<Rightarrow>
          SET_NAME (w\<lparr>sources := (sources w)(this \<mapsto> sceneSource\<lparr>sourceName := newName\<rparr>)\<rparr>)
                   this newName)"

definition makeItemsActive :: "world \<Rightarrow> string \<Rightarrow> string list \<Rightarrow> unit result \<times> world" where
  "makeItemsActive w this sceneItemIds =
     (case mapR (\<lambda>itemId.
                   case getItem w this itemId of
                     Inl e \<Rightarrow> Inl e
                   | Inr None \<Rightarrow> Inl TypeError
                   | Inr (Some h) \<Rightarrow>
                       (case sceneItemState w h of
                          Inl e \<Rightarrow> Inl e
                        | Inr m \<Rightarrow> Inr (obsSceneItemId m)))
                sceneItemIds of
        Inl e \<Rightarrow> (Inl e, w)
      | Inr activeObsIds \<Rightarrow> MAKE_SOURCES_ACTIVE w this sceneItemIds)"

text \<open>\<open>options.sceneItemId || ipcRenderer.sendSync('getUniqueId')\<close>: an empty string is falsy.\<close>

definition chooseId :: "ISceneItemAddOptions \<Rightarrow> string \<Rightarrow> string" where
  "chooseId options uniqueId =
     (case opt_sceneItemId options of
        None \<Rightarrow> uniqueId
      | Some s \<Rightarrow> if s = [] then uniqueId else s)"

definition addSource ::
  "world \<Rightarrow> string \<Rightarrow> string \<Rightarrow> ISceneItemAddOptions \<Rightarrow> string \<Rightarrow> ObsSceneItem
    \<Rightarrow> (SceneItem option result \<times> world) option" where
  "addSource w this sid options uniqueId obsSceneItem =
     (case sources w sid of
        None \<Rightarrow> Some (Inl (SourceNotFound sid), w)
      | Some source \<Rightarrow>
          (case canAddSource w this sid of
             None \<Rightarrow> None
           | Some (Inl e) \<Rightarrow> Some (Inl e, w)
           | Some (Inr False) \<Rightarrow> Some (Inr None, w)
           | Some (Inr True) \<Rightarrow>
               Some (let i = chooseId options uniqueId
                     in bindS (ADD_SOURCE_TO_SCENE w this i sid (obs_id obsSceneItem)) (\<lambda>_ w1.
                        bindS (getItem w1 this i, w1) (\<lambda>sceneItem w1.
                        bindS (makeItemsActive w1 this [i]) (\<lambda>_ w2.
                        case sceneItem of
                          None \<Rightarrow> (Inl TypeError, w2)
                        | Some h \<Rightarrow>
                            bindS (loadAttributes w2 h obsSceneItem) (\<lambda>_ w3.
                            (Inr (Some h), w3))))))))"

definition removeItem :: "world \<Rightarrow> string \<Rightarrow> string \<Rightarrow> unit result \<times> world" where
  "removeItem w this i =
     (case getItem w this i of
        Inl e \<Rightarrow> (Inl e, w)
      | Inr None \<Rightarrow> (Inl (SceneItemNotFound i), w)
      | Inr (Some sceneItem) \<Rightarrow> REMOVE_SOURCE_FROM_SCENE w this i)"

definition setSourceOrder :: "world \<Rightarrow> string \<Rightarrow> string \<Rightarrow> int \<Rightarrow> string list \<Rightarrow> unit result \<times> world" where
  "setSourceOrder w this i positionDelta order =
     (case getItemIndex w this i of
        Inl e \<Rightarrow> (Inl e, w)
      | Inr itemIndex \<Rightarrow> SET_SOURCE_ORDER w this order)"

definition mkArrayItem :: "ISceneItemInfo \<Rightarrow> ArrayItem" where
  "mkArrayItem item =
     \<lparr>arr_name = info_sourceId item, arr_id = info_id item, arr_sourceId = info_sourceId item,
      arr_crop = info_crop item,
      arr_scaleX = (case info_scaleX item of None \<Rightarrow> 1 | Some v \<Rightarrow> v),
      arr_scaleY = (case info_scaleY item of None \<Rightarrow> 1 | Some v \<Rightarrow> v),
      arr_visible = info_visible item,
      arr_x = (case info_x item of None \<Rightarrow> 0 | Some v \<Rightarrow> v),
      arr_y = (case info_y item of None \<Rightarrow> 0 | Some v \<Rightarrow> v),
      arr_locked = info_locked item,
      arr_rotation = (case info_rotation item of None \<Rightarrow> 0 | Some v \<Rightarrow> v)\<rparr>"

text \<open>
  The second loop of \<open>addSources\<close> runs over \<open>arrayItems\<close> and reads \<open>items[index]\<close> and
  \<open>sceneItems[index]\<close> at the same index: the three lists are walked in step. A missing
  entry is a TypeError raised while the arguments of the mutation are evaluated.
\<close>

fun addSourcesLoop ::
  "world \<Rightarrow> string \<Rightarrow> ArrayItem list \<Rightarrow> ISceneItemInfo list \<Rightarrow> ObsSceneItem list
    \<Rightarrow> unit result \<times> world" where
  "addSourcesLoop w this [] infos sceneItems = (Inr (), w)"
| "addSourcesLoop w this (sceneItem # arrayItems) (item # infos) (obsItem # sceneItems) =
     bindS (ADD_SOURCE_TO_SCENE w this (info_id item) (info_sourceId item) (obs_id obsItem)) (\<lambda>_ w1.
     bindS (getItem w1 this (info_id item), w1) (\<lambda>got w1.
     case got of
       None \<Rightarrow> (Inl TypeError, w1)
     | Some h \<Rightarrow>
         bindS (loadItemAttributes w1 h sceneItem) (\<lambda>_ w2.
         addSourcesLoop w2 this arrayItems infos sceneItems)))"
| "addSourcesLoop w this (sceneItem # arrayItems) infos sceneItems = (Inl TypeError, w)"

definition addSources :: "world \<Rightarrow> string \<Rightarrow> ISceneItemInfo list \<Rightarrow> ObsSceneItem list \<Rightarrow> unit result \<times> world" where
  "addSources w this infos sceneItems =
     addSourcesLoop w this
       (map mkArrayItem (filter (\<lambda>item. sources w (info_sourceId item) \<noteq> None) infos))
       infos sceneItems"

section \<open>Slots and invariants\<close>

text \<open>The ids of the defined slots of \<open>items\<close>, in order.\<close>

fun slotIds :: "ISceneItem option list \<Rightarrow> string list" where
  "slotIds [] = []"
| "slotIds (None # rest) = slotIds rest"
| "slotIds (Some m # rest) = sceneItemId m # slotIds rest"

text \<open>
  The two invariants of a scene: no id appears twice in \<open>items\<close>, and every active id is
  the id of an item.
\<close>

definition sceneInv :: "IScene \<Rightarrow> bool" where
  "sceneInv sc \<longleftrightarrow>
     distinct (slotIds (items sc)) \<and> set (activeItemIds sc) \<subseteq> set (slotIds (items sc))"

definition storeInv :: "world \<Rightarrow> bool" where
  "storeInv w \<longleftrightarrow> (\<forall>k sc. scenes w k = Some sc \<longrightarrow> sceneInv sc)"

text \<open>The operations of a scene that write to the store, with their arguments.\<close>

datatype sceneOp =
    AddSource string ISceneItemAddOptions string ObsSceneItem
  | AddSources "ISceneItemInfo list" "ObsSceneItem list"
  | RemoveItem string
  | MakeItemsActive "string list"
  | SetSourceOrder string int "string list"
  | SetName string

text \<open>The store an operation leaves behind, whether it returned or threw.\<close>

fun storeAfter :: "world \<Rightarrow> string \<Rightarrow> sceneOp \<Rightarrow> world option" where
  "storeAfter w this (AddSource sid options uid obsItem) =
     map_option snd (addSource w this sid options uid obsItem)"
| "storeAfter w this (AddSources infos sceneItems) = Some (snd (addSources w this infos sceneItems))"
| "storeAfter w this (RemoveItem i) = Some (snd (removeItem w this i))"
| "storeAfter w this (MakeItemsActive ids) = Some (snd (makeItemsActive w this ids))"
| "storeAfter w this (SetSourceOrder i positionDelta order) =
     Some (snd (setSourceOrder w this i positionDelta order))"
| "storeAfter w this (SetName newName) = Some (snd (setName w this newName))"

text \<open>
  The arguments under which the invariants are kept: the id \<open>addSource\<close> uses is not yet
  an id of the scene, the ids given to \<open>addSources\<close> are distinct and not yet ids of the
  scene, and the order given to \<open>setSourceOrder\<close> is a permutation of the ids of the scene.
\<close>

fun admissible :: "IScene \<Rightarrow> sceneOp \<Rightarrow> bool" where
  "admissible sc (AddSource sid options uid obsItem) =
     (chooseId options uid \<notin> set (slotIds (items sc)))"
| "admissible sc (AddSources infos sceneItems) =
     (distinct (map info_id infos) \<and> set (map info_id infos) \<inter> set (slotIds (items sc)) = {})"
| "admissible sc (SetSourceOrder i positionDelta order) = (mset order = mset (slotIds (items sc)))"
| "admissible sc _ = True"

section \<open>The scene-reference graph\<close>

text \<open>
  Scene \<open>p\<close> refers to scene \<open>c\<close> when an item of \<open>p\<close> has the source \<open>c\<close> and that
  source is of type scene. A scene transitively contains the scenes that the transitive
  closure of this relation reaches from it.
\<close>

definition isSceneSource :: "world \<Rightarrow> string \<Rightarrow> bool" where
  "isSceneSource w sid = (case sources w sid of None \<Rightarrow> False | Some s \<Rightarrow> sourceType s = ''scene'')"

definition sceneRefs :: "world \<Rightarrow> (string \<times> string) set" where
  "sceneRefs w =
     {(p, c). \<exists>sc m. scenes w p = Some sc \<and> Some m \<in> set (items sc) \<and> sourceId m = c \<and>
                isSceneSource w c}"

text \<open>
  A well-formed store: no slot of a scene is undefined, the ids of the items of a scene are
  distinct, and every source of type scene is the source of a scene in the store.
\<close>

definition wellFormed :: "world \<Rightarrow> bool" where
  "wellFormed w \<longleftrightarrow>
     (\<forall>p sc. scenes w p = Some sc \<longrightarrow> None \<notin> set (items sc) \<and> distinct (slotIds (items sc))) \<and>
     (\<forall>sid. isSceneSource w sid \<longrightarrow> scenes w sid \<noteq> None)"

text \<open>The recursive calls of \<open>hasNestedScene\<close> and \<open>getNestedItems\<close>: from a scene to its child scenes.\<close>

definition callRel :: "world \<Rightarrow> (string \<times> string) set" where
  "callRel w = {(p, c). \<exists>cs. childScenes w p = Inr cs \<and> c \<in> set cs}"

text \<open>The handle that \<open>getItem\<close> builds for a defined slot of scene \<open>p\<close>.\<close>

definition handleOf :: "string \<Rightarrow> ISceneItem option \<Rightarrow> SceneItem" where
  "handleOf p slot = \<lparr>h_sceneId = p, h_sceneItemId = sceneItemId (the slot), h_sourceId = sourceId (the slot)\<rparr>"

text \<open>
  The traversal in the words of the spec: the items of this scene in their stored order,
  followed by the traversal of each nested scene, in the order of the items that hold
  them. Nothing is removed from it.
\<close>

inductive nestedTraversal :: "world \<Rightarrow> string \<Rightarrow> SceneItem list \<Rightarrow> bool" where
  "scenes w this = Some sc \<Longrightarrow> None \<notin> set (items sc) \<Longrightarrow>
   own = map (handleOf this) (items sc) \<Longrightarrow>
   list_all2 (nestedTraversal w) (map h_sourceId (filter (isSceneItem w) own)) nested \<Longrightarrow>
   nestedTraversal w this (own @ concat nested)"

section \<open>Example stores\<close>

definition sceneSource :: Source where
  "sceneSource = \<lparr>sourceType = ''scene'', sourceName = ''Scene''\<rparr>"

definition cameraSource :: Source where
  "cameraSource = \<lparr>sourceType = ''camera'', sourceName = ''Camera''\<rparr>"

definition emptyScene :: IScene where
  "emptyScene = \<lparr>name = ''Scene'', activeItemIds = [], items = []\<rparr>"

definition noCrop :: ICrop where
  "noCrop = \<lparr>crop_top = 0, crop_bottom = 0, crop_left = 0, crop_right = 0\<rparr>"

text \<open>A backend item that reports the same geometry as the record \<open>newItem\<close>.\<close>

definition obsDefault :: "int \<Rightarrow> ObsSceneItem" where
  "obsDefault n = \<lparr>obs_id = n, obs_x = 0, obs_y = 0, obs_scaleX = 1, obs_scaleY = 1,
     obs_visible = True, obs_crop = noCrop, obs_rotation = 0\<rparr>"

definition noOptions :: ISceneItemAddOptions where
  "noOptions = \<lparr>opt_sceneItemId = None\<rparr>"

text \<open>An empty scene \<open>S1\<close> and a camera.\<close>

definition wS1 :: world where
  "wS1 = \<lparr>scenes = [''S1'' \<mapsto> emptyScene],
          sources = [''S1'' \<mapsto> sceneSource, ''cam1'' \<mapsto> cameraSource]\<rparr>"

text \<open>Scene \<open>S1\<close> with one active item, and the store after a second camera item is added.\<close>

definition wActive :: world where
  "wActive = \<lparr>scenes = [''S1'' \<mapsto> \<lparr>name = ''Scene'', activeItemIds = [''i1''],
                                   items = [Some (newItem ''i1'' ''cam1'' 1)]\<rparr>],
          sources = [''S1'' \<mapsto> sceneSource, ''cam1'' \<mapsto> cameraSource]\<rparr>"

definition wActive' :: world where
  "wActive' = \<lparr>scenes = [''S1'' \<mapsto> \<lparr>name = ''Scene'', activeItemIds = [''i2''],
                                   items = [Some (newItem ''i2'' ''cam1'' 2), Some (newItem ''i1'' ''cam1'' 1)]\<rparr>],
          sources = [''S1'' \<mapsto> sceneSource, ''cam1'' \<mapsto> cameraSource]\<rparr>"



text \<open>
  The store \<open>wActive'\<close> after item \<open>i2\<close> is removed, and after its two items are
  swapped; \<open>scActive'\<close> is its scene \<open>S1\<close>.
\<close>

definition wRemoved :: world where
  "wRemoved = \<lparr>scenes = [''S1'' \<mapsto> \<lparr>name = ''Scene'', activeItemIds = [],
                                   items = [Some (newItem ''i1'' ''cam1'' 1)]\<rparr>],
          sources = [''S1'' \<mapsto> sceneSource, ''cam1'' \<mapsto> cameraSource]\<rparr>"

definition wSwapped :: world where
  "wSwapped = \<lparr>scenes = [''S1'' \<mapsto> \<lparr>name = ''Scene'', activeItemIds = [''i2''],
                                   items = [Some (newItem ''i1'' ''cam1'' 1), Some (newItem ''i2'' ''cam1'' 2)]\<rparr>],
          sources = [''S1'' \<mapsto> sceneSource, ''cam1'' \<mapsto> cameraSource]\<rparr>"

definition scActive' :: IScene where
  "scActive' = \<lparr>name = ''Scene'', activeItemIds = [''i2''],
                 items = [Some (newItem ''i2'' ''cam1'' 2), Some (newItem ''i1'' ''cam1'' 1)]\<rparr>"

text \<open>Scene \<open>S1\<close> of \<open>wActive\<close> after a second item was added under the id of the first.\<close>

definition wDup :: world where
  "wDup = \<lparr>scenes = [''S1'' \<mapsto> \<lparr>name = ''Scene'', activeItemIds = [''i1''],
                                   items = [Some (newItem ''i1'' ''cam1'' 2), Some (newItem ''i1'' ''cam1'' 1)]\<rparr>],
          sources = [''S1'' \<mapsto> sceneSource, ''cam1'' \<mapsto> cameraSource]\<rparr>"

text \<open>Scene \<open>A\<close> is empty; scene \<open>B\<close> has one item, whose source is \<open>B\<close> itself.\<close>

definition wLoop :: world where
  "wLoop = \<lparr>scenes = [''A'' \<mapsto> emptyScene,
                      ''B'' \<mapsto> \<lparr>name = ''Scene'', activeItemIds = [],
                                 items = [Some (newItem ''b1'' ''B'' 1)]\<rparr>],
            sources = [''A'' \<mapsto> sceneSource, ''B'' \<mapsto> sceneSource]\<rparr>"

text \<open>
  Scene \<open>S\<close> holds the scenes \<open>C\<close> and \<open>D\<close>, scene \<open>D\<close> holds \<open>C\<close> again, and \<open>C\<close> holds
  a camera.
\<close>

definition wDiamond :: world where
  "wDiamond = \<lparr>scenes = [''S'' \<mapsto> \<lparr>name = ''Scene'', activeItemIds = [],
                                   items = [Some (newItem ''s1'' ''C'' 1), Some (newItem ''s2'' ''D'' 2)]\<rparr>,
                         ''D'' \<mapsto> \<lparr>name = ''Scene'', activeItemIds = [],
                                   items = [Some (newItem ''d1'' ''C'' 3)]\<rparr>,
                         ''C'' \<mapsto> \<lparr>name = ''Scene'', activeItemIds = [],
                                   items = [Some (newItem ''c1'' ''cam1'' 4)]\<rparr>],
               sources = [''S'' \<mapsto> sceneSource, ''C'' \<mapsto> sceneSource, ''D'' \<mapsto> sceneSource,
                          ''cam1'' \<mapsto> cameraSource]\<rparr>"

text \<open>A rank that every reference of \<open>wDiamond\<close> decreases.\<close>

definition rankDiamond :: "string \<Rightarrow> nat" where
  "rankDiamond p = (if p = ''S'' then 2 else if p = ''D'' then 1 else 0)"

text \<open>The handles of the four items of \<open>wDiamond\<close>.\<close>

definition hS1 :: SceneItem where
  "hS1 = \<lparr>h_sceneId = ''S'', h_sceneItemId = ''s1'', h_sourceId = ''C''\<rparr>"

definition hS2 :: SceneItem where
  "hS2 = \<lparr>h_sceneId = ''S'', h_sceneItemId = ''s2'', h_sourceId = ''D''\<rparr>"

definition hC1 :: SceneItem where
  "hC1 = \<lparr>h_sceneId = ''C'', h_sceneItemId = ''c1'', h_sourceId = ''cam1''\<rparr>"

definition hD1 :: SceneItem where
  "hD1 = \<lparr>h_sceneId = ''D'', h_sceneItemId = ''d1'', h_sourceId = ''C''\<rparr>"

section \<open>Basic facts about the store\<close>

lemma putScene_twice: "putScene (putScene w k a) k b = putScene w k b"
  by (simp add: putScene_def)

lemma scenes_putScene: "scenes (putScene w k a) k' = (if k' = k then Some a else scenes w k')"
  by (simp add: putScene_def)

lemma newItem_ids:
  "sceneItemId (newItem i sid n) = i" "sourceId (newItem i sid n) = sid"
  "obsSceneItemId (newItem i sid n) = n"
  by (simp_all add: newItem_def)

lemma fromObs_ids:
  "sceneItemId (fromObs obsItem m) = sceneItemId m" "sourceId (fromObs obsItem m) = sourceId m"
  "obsSceneItemId (fromObs obsItem m) = obsSceneItemId m" "locked (fromObs obsItem m) = locked m"
  by (simp_all add: fromObs_def)

text \<open>The path of \<open>addSource\<close> that creates an item, and when it is taken.\<close>

lemma addSource_Returned:
  assumes "sources w sid = Some s" and "canAddSource w this sid = Some (Inr True)"
    and "scenes w this = Some sc"
  shows "addSource w this sid options uid obsItem =
    Some (Inr (Some \<lparr>h_sceneId = this, h_sceneItemId = chooseId options uid, h_sourceId = sid\<rparr>),
          putScene w this
            (sc\<lparr>activeItemIds := [chooseId options uid],
                items := Some (fromObs obsItem (newItem (chooseId options uid) sid (obs_id obsItem)))
                           # items sc\<rparr>))"
  using assms
  by (simp add: addSource_def ADD_SOURCE_TO_SCENE_def sceneState_def getItem_def
      scenes_putScene newItem_ids makeItemsActive_def sceneItemState_def MAKE_SOURCES_ACTIVE_def
      loadAttributes_def UPDATE_def putScene_twice Let_def)

lemma addSource_ReturnedD:
  assumes "addSource w this sid options uid obsItem = Some (Inr (Some h), w')"
  shows "\<exists>s sc. sources w sid = Some s \<and> canAddSource w this sid = Some (Inr True)
           \<and> scenes w this = Some sc"
  using assms
  by (auto simp: addSource_def ADD_SOURCE_TO_SCENE_def sceneState_def
      split: option.splits sum.splits bool.splits)

section \<open>Adding to the example stores\<close>

lemma obs_id_obsDefault: "obs_id (obsDefault n) = n"
  by (simp add: obsDefault_def)

lemma fromObs_default: "fromObs (obsDefault n) (newItem i sid k) = newItem i sid k"
  by (simp add: fromObs_def obsDefault_def newItem_def noCrop_def)

lemma canAddSource_camera: "canAddSource wActive ''S1'' ''cam1'' = Some (Inr True)"
  by (simp add: canAddSource_def wActive_def cameraSource_def)

lemma addSource_wActive:
  "addSource wActive ''S1'' ''cam1'' noOptions ''i2'' (obsDefault 2) =
     Some (Inr (Some \<lparr>h_sceneId = ''S1'', h_sceneItemId = ''i2'', h_sourceId = ''cam1''\<rparr>), wActive')"
proof -
  have "sources wActive ''cam1'' = Some cameraSource"
    by (simp add: wActive_def)
  moreover have "scenes wActive ''S1'' = Some \<lparr>name = ''Scene'', activeItemIds = [''i1''],
                                   items = [Some (newItem ''i1'' ''cam1'' 1)]\<rparr>"
    by (simp add: wActive_def)
  ultimately show ?thesis
    using addSource_Returned [OF _ canAddSource_camera, of cameraSource _ noOptions "''i2''" "obsDefault 2"]
    by (simp add: chooseId_def noOptions_def fromObs_default wActive'_def putScene_def wActive_def
        obs_id_obsDefault)
qed

section \<open>Failure tiers of addSource\<close>

text \<open>
  Claim C2. \<open>addSource\<close> has two failure tiers and is atomic on failure: for a source id
  that does not resolve in the registry it throws (\<open>Source ... not found\<close>), and for a
  source that resolves but is rejected by \<open>canAddSource\<close> it returns null. In both cases
  the store that comes back is the store that went in: no item is created, and the items
  and active ids of the scene are unchanged.
\<close>

theorem addSource_failure_tiers:
  "(sources w sid = None \<longrightarrow>
      addSource w this sid options uid obsItem = Some (Inl (SourceNotFound sid), w)) \<and>
   (sources w sid \<noteq> None \<and> canAddSource w this sid = Some (Inr False) \<longrightarrow>
      addSource w this sid options uid obsItem = Some (Inr None, w))"
  by (auto simp: addSource_def)

theorem addSource_failure_tiers_witness:
  "addSource wS1 ''S1'' ''ghost'' noOptions ''i1'' (obsDefault 7) =
     Some (Inl (SourceNotFound ''ghost''), wS1) \<and>
   addSource wS1 ''S1'' ''S1'' noOptions ''i1'' (obsDefault 7) = Some (Inr None, wS1)"
  using addSource_failure_tiers [of wS1 "''ghost''" "''S1''" noOptions "''i1''" "obsDefault 7"]
    addSource_failure_tiers [of wS1 "''S1''" "''S1''" noOptions "''i1''" "obsDefault 7"]
  by (simp add: wS1_def canAddSource_def sceneSource_def)

text \<open>
  Claim C10. For a source id that does not resolve in the registry, \<open>canAddSource\<close>
  returns false and does not throw. The error thrown by \<open>addSource\<close> for such an id is
  the one of its own resolution check, which comes first: the call throws instead of
  returning the null of a policy rejection.
\<close>

theorem canAddSource_unresolved:
  assumes "sources w sid = None"
  shows "canAddSource w this sid = Some (Inr False) \<and>
         addSource w this sid options uid obsItem = Some (Inl (SourceNotFound sid), w)"
  using assms by (simp add: canAddSource_def addSource_def)

theorem canAddSource_unresolved_witness:
  "canAddSource wS1 ''S1'' ''ghost'' = Some (Inr False) \<and>
   addSource wS1 ''S1'' ''ghost'' noOptions ''i1'' (obsDefault 7) =
     Some (Inl (SourceNotFound ''ghost''), wS1)"
  using canAddSource_unresolved [of wS1 "''ghost''" "''S1''" noOptions "''i1''" "obsDefault 7"]
  by (simp add: wS1_def)

section \<open>The active items after addSource\<close>

text \<open>
  Claim C4, as amended. \<open>addSource\<close> ends with \<open>makeItemsActive([sceneItemId])\<close>, which
  replaces the active ids: after a successful call the active ids of the scene are exactly
  the id of the new item. The ids that were active before are not kept.
\<close>

theorem addSource_active_is_new:
  assumes "addSource w this sid options uid obsItem = Some (Inr (Some h), w')"
  shows "map_option activeItemIds (scenes w' this) = Some [h_sceneItemId h]"
proof -
  from addSource_ReturnedD [OF assms] obtain s sc where
    "sources w sid = Some s" "canAddSource w this sid = Some (Inr True)" "scenes w this = Some sc"
    by blast
  from addSource_Returned [OF this, of options uid obsItem] assms
  show ?thesis by (auto simp: scenes_putScene)
qed

theorem addSource_active_is_new_witness:
  "map_option activeItemIds (scenes wActive' ''S1'') = Some [''i2'']"
  using addSource_active_is_new [OF addSource_wActive] by simp

text \<open>
  The claim as stated fails: in \<open>wActive\<close> the item \<open>i1\<close> is active; adding a second
  camera item \<open>i2\<close> succeeds, and afterwards \<open>i1\<close> is no longer active.
\<close>

theorem addSource_active_counterexample:
  "addSource wActive ''S1'' ''cam1'' noOptions ''i2'' (obsDefault 2) =
     Some (Inr (Some \<lparr>h_sceneId = ''S1'', h_sceneItemId = ''i2'', h_sourceId = ''cam1''\<rparr>), wActive') \<and>
   map_option activeItemIds (scenes wActive ''S1'') = Some [''i1''] \<and>
   map_option activeItemIds (scenes wActive' ''S1'') = Some [''i2'']"
  using addSource_wActive by (simp add: wActive_def wActive'_def)

section \<open>Facts about slots\<close>

lemma findItem_member: "Some m \<in> set xs \<Longrightarrow> findItem (sceneItemId m) xs \<noteq> Inr None"
  by (induction xs rule: slotIds.induct) auto

lemma findItem_absent:
  "None \<notin> set xs \<Longrightarrow> i \<notin> set (slotIds xs) \<Longrightarrow> findItem i xs = Inr None"
  by (induction xs rule: slotIds.induct) auto

lemma findItem_present:
  "None \<notin> set xs \<Longrightarrow> i \<in> set (slotIds xs) \<Longrightarrow>
     \<exists>m. findItem i xs = Inr (Some m) \<and> sceneItemId m = i \<and> Some m \<in> set xs"
  by (induction xs rule: slotIds.induct) auto

lemma withoutItem_defined:
  "None \<notin> set xs \<Longrightarrow>
     withoutItem i xs = Inr (filter (\<lambda>slot. map_option sceneItemId slot \<noteq> Some i) xs)"
  by (induction xs rule: slotIds.induct) auto

lemma filter_absent:
  "i \<notin> set (slotIds xs) \<Longrightarrow> filter (\<lambda>slot. map_option sceneItemId slot \<noteq> Some i) xs = xs"
  by (induction xs rule: slotIds.induct) auto

lemma filter_distinct_split:
  "None \<notin> set xs \<Longrightarrow> distinct (slotIds xs) \<Longrightarrow> i \<in> set (slotIds xs) \<Longrightarrow>
     \<exists>pre m post. xs = pre @ Some m # post \<and> sceneItemId m = i \<and>
        filter (\<lambda>slot. map_option sceneItemId slot \<noteq> Some i) xs = pre @ post"
proof (induction xs rule: slotIds.induct)
  case 1
  then show ?case by simp
next
  case (2 rest)
  then show ?case by simp
next
  case (3 m rest)
  show ?case
  proof (cases "sceneItemId m = i")
    case True
    with 3 have "i \<notin> set (slotIds rest)" by simp
    then have "filter (\<lambda>slot. map_option sceneItemId slot \<noteq> Some i) rest = rest"
      by (rule filter_absent)
    with True have "Some m # rest = [] @ Some m # rest \<and> sceneItemId m = i \<and>
      filter (\<lambda>slot. map_option sceneItemId slot \<noteq> Some i) (Some m # rest) = [] @ rest"
      by simp
    then show ?thesis by blast
  next
    case False
    with 3 obtain pre m' post where
      "rest = pre @ Some m' # post" "sceneItemId m' = i"
      "filter (\<lambda>slot. map_option sceneItemId slot \<noteq> Some i) rest = pre @ post"
      by auto
    with False have "Some m # rest = (Some m # pre) @ Some m' # post \<and> sceneItemId m' = i \<and>
      filter (\<lambda>slot. map_option sceneItemId slot \<noteq> Some i) (Some m # rest) = (Some m # pre) @ post"
      by simp
    then show ?thesis by blast
  qed
qed

lemma getItemIndexFrom_defined:
  "None \<notin> set xs \<Longrightarrow> \<exists>k. getItemIndexFrom i xs n = Inr k"
  by (induction xs arbitrary: n rule: slotIds.induct) auto

lemma mapR_findItem:
  "None \<notin> set xs \<Longrightarrow> set order \<subseteq> set (slotIds xs) \<Longrightarrow>
     \<exists>slots. mapR (\<lambda>i. findItem i xs) order = Inr slots \<and> None \<notin> set slots \<and>
        set slots \<subseteq> set xs \<and> slotIds slots = order"
proof (induction order)
  case Nil
  then show ?case by simp
next
  case (Cons i order)
  then obtain slots where s: "mapR (\<lambda>i. findItem i xs) order = Inr slots" "None \<notin> set slots"
    "set slots \<subseteq> set xs" "slotIds slots = order"
    by auto
  from Cons.prems obtain m where "findItem i xs = Inr (Some m)" "sceneItemId m = i" "Some m \<in> set xs"
    using findItem_present [of xs i] by auto
  with s show ?case by simp
qed

section \<open>The store after two additions\<close>

lemma scenes_wActive': "scenes wActive' ''S1'' = Some scActive'"
  by (simp add: wActive'_def scActive'_def)

lemma slots_scActive':
  "None \<notin> set (items scActive')" "slotIds (items scActive') = [''i2'', ''i1'']"
  by (simp_all add: scActive'_def newItem_ids)

section \<open>Removing an item\<close>

text \<open>
  Claim C5. In a scene whose slots are all defined, \<open>removeItem\<close> throws
  \<open>SceneItem ... not found\<close> and leaves the store unchanged when no item has the id.
  Otherwise it deletes the records of that id from \<open>items\<close> and the id from
  \<open>activeItemIds\<close>, and keeps every other item in its place in the order. When the ids
  of the scene are distinct, the deleted record is exactly one.
\<close>

theorem removeItem_spec:
  assumes "scenes w this = Some sc" and "None \<notin> set (items sc)"
  shows "(i \<notin> set (slotIds (items sc)) \<longrightarrow>
            removeItem w this i = (Inl (SceneItemNotFound i), w)) \<and>
         (i \<in> set (slotIds (items sc)) \<longrightarrow>
            removeItem w this i =
              (Inr (), putScene w this
                 (sc\<lparr>activeItemIds := removeAll i (activeItemIds sc),
                     items := filter (\<lambda>slot. map_option sceneItemId slot \<noteq> Some i) (items sc)\<rparr>))) \<and>
         (i \<in> set (slotIds (items sc)) \<and> distinct (slotIds (items sc)) \<longrightarrow>
            (\<exists>pre m post. items sc = pre @ Some m # post \<and> sceneItemId m = i \<and>
               filter (\<lambda>slot. map_option sceneItemId slot \<noteq> Some i) (items sc) = pre @ post))"
proof (intro conjI impI)
  assume "i \<notin> set (slotIds (items sc))"
  with assms show "removeItem w this i = (Inl (SceneItemNotFound i), w)"
    by (simp add: removeItem_def getItem_def sceneState_def findItem_absent)
next
  assume "i \<in> set (slotIds (items sc))"
  with assms(2) obtain m where "findItem i (items sc) = Inr (Some m)"
    using findItem_present by blast
  with assms show "removeItem w this i =
      (Inr (), putScene w this
         (sc\<lparr>activeItemIds := removeAll i (activeItemIds sc),
             items := filter (\<lambda>slot. map_option sceneItemId slot \<noteq> Some i) (items sc)\<rparr>))"
    by (simp add: removeItem_def getItem_def sceneState_def REMOVE_SOURCE_FROM_SCENE_def
        withoutItem_defined Let_def)
next
  assume "i \<in> set (slotIds (items sc)) \<and> distinct (slotIds (items sc))"
  with assms(2) show "\<exists>pre m post. items sc = pre @ Some m # post \<and> sceneItemId m = i \<and>
               filter (\<lambda>slot. map_option sceneItemId slot \<noteq> Some i) (items sc) = pre @ post"
    using filter_distinct_split by blast
qed

theorem removeItem_spec_witness:
  "removeItem wActive' ''S1'' ''zz'' = (Inl (SceneItemNotFound ''zz''), wActive') \<and>
   removeItem wActive' ''S1'' ''i2'' = (Inr (), wRemoved) \<and>
   (\<exists>pre m post. items scActive' = pre @ Some m # post \<and> sceneItemId m = ''i2'' \<and>
      filter (\<lambda>slot. map_option sceneItemId slot \<noteq> Some ''i2'') (items scActive') = pre @ post)"
proof -
  note t = removeItem_spec [OF scenes_wActive' slots_scActive'(1)]
  have "removeItem wActive' ''S1'' ''zz'' = (Inl (SceneItemNotFound ''zz''), wActive')"
    using t [of "''zz''"] by (simp add: slots_scActive')
  moreover have "removeItem wActive' ''S1'' ''i2'' = (Inr (), wRemoved)"
    using t [of "''i2''"]
    by (simp add: slots_scActive') (simp add: scActive'_def wRemoved_def wActive'_def putScene_def newItem_ids)
  moreover have "\<exists>pre m post. items scActive' = pre @ Some m # post \<and> sceneItemId m = ''i2'' \<and>
      filter (\<lambda>slot. map_option sceneItemId slot \<noteq> Some ''i2'') (items scActive') = pre @ post"
    using t [of "''i2''"] by (simp add: slots_scActive')
  ultimately show ?thesis by blast
qed

section \<open>Reordering\<close>

text \<open>
  Claim C6. Order round-trip: for a scene whose slots are all defined and every
  permutation \<open>order\<close> of the ids of its items, \<open>setSourceOrder\<close> returns, and the ids
  of the items of the scene are then exactly \<open>order\<close>, whatever item and position delta
  were passed for the backend move.
\<close>

theorem setSourceOrder_roundtrip:
  assumes "scenes w this = Some sc" and "None \<notin> set (items sc)"
    and "mset order = mset (slotIds (items sc))"
  shows "\<exists>slots. setSourceOrder w this i positionDelta order =
            (Inr (), putScene w this (sc\<lparr>items := slots\<rparr>)) \<and>
          None \<notin> set slots \<and> slotIds slots = order"
proof -
  from assms(3) have "set order \<subseteq> set (slotIds (items sc))"
    by (metis mset_eq_setD subset_refl)
  with assms(2) obtain slots where "mapR (\<lambda>i. findItem i (items sc)) order = Inr slots"
    "None \<notin> set slots" "slotIds slots = order"
    using mapR_findItem by blast
  moreover obtain k where "getItemIndexFrom i (items sc) 0 = Inr k"
    using getItemIndexFrom_defined [OF assms(2)] by blast
  ultimately show ?thesis
    using assms(1)
    by (intro exI [of _ slots])
      (simp add: setSourceOrder_def getItemIndex_def sceneState_def SET_SOURCE_ORDER_def)
qed

theorem setSourceOrder_roundtrip_witness:
  "(\<exists>slots. setSourceOrder wActive' ''S1'' ''i1'' (- 1) [''i1'', ''i2''] =
            (Inr (), putScene wActive' ''S1'' (scActive'\<lparr>items := slots\<rparr>)) \<and>
          None \<notin> set slots \<and> slotIds slots = [''i1'', ''i2'']) \<and>
   setSourceOrder wActive' ''S1'' ''i1'' (- 1) [''i1'', ''i2''] = (Inr (), wSwapped)"
proof -
  have "setSourceOrder wActive' ''S1'' ''i1'' (- 1) [''i1'', ''i2''] = (Inr (), wSwapped)"
    by (simp add: setSourceOrder_def getItemIndex_def sceneState_def SET_SOURCE_ORDER_def
        wActive'_def wSwapped_def putScene_def newItem_ids)
  with setSourceOrder_roundtrip [OF scenes_wActive' slots_scActive'(1),
      of "[''i1'', ''i2'']" "''i1''" "- 1"]
  show ?thesis
    by (simp add: slots_scActive')
qed

section \<open>Front insertion\<close>







section \<open>Preservation of the invariants\<close>

lemma storeInv_putScene: "storeInv w \<Longrightarrow> sceneInv sc' \<Longrightarrow> storeInv (putScene w this sc')"
  by (simp add: storeInv_def scenes_putScene)

lemma storeInv_scene: "storeInv w \<Longrightarrow> scenes w this = Some sc \<Longrightarrow> sceneInv sc"
  by (simp add: storeInv_def)

lemma findItem_Some_id: "findItem i xs = Inr (Some m) \<Longrightarrow> i \<in> set (slotIds xs)"
  by (induction xs rule: slotIds.induct) (auto split: if_splits)

lemma findItem_Inr_present:
  "findItem i xs = Inr r \<Longrightarrow> i \<in> set (slotIds xs) \<Longrightarrow> \<exists>m. r = Some m \<and> sceneItemId m = i"
  by (induction xs rule: slotIds.induct) (auto split: if_splits)

lemma withoutItem_ids: "withoutItem i xs = Inr kept \<Longrightarrow> slotIds kept = filter (\<lambda>j. j \<noteq> i) (slotIds xs)"
  by (induction xs arbitrary: kept rule: slotIds.induct) (auto split: sum.splits)

lemma mapR_Inr_all: "mapR f xs = Inr ys \<Longrightarrow> x \<in> set xs \<Longrightarrow> \<exists>y. f x = Inr y"
  by (induction xs arbitrary: ys) (auto split: sum.splits)

lemma setName_inv: "storeInv w \<Longrightarrow> storeInv (snd (setName w this newName))"
  by (auto simp: setName_def SET_NAME_def sceneState_def storeInv_def scenes_putScene sceneInv_def
      split: option.splits)

lemma makeItemsActive_inv:
  assumes "storeInv w"
  shows "storeInv (snd (makeItemsActive w this ids))"
proof (cases "mapR (\<lambda>itemId.
                   case getItem w this itemId of
                     Inl e \<Rightarrow> Inl e
                   | Inr None \<Rightarrow> Inl TypeError
                   | Inr (Some h) \<Rightarrow>
                       (case sceneItemState w h of
                          Inl e \<Rightarrow> Inl e
                        | Inr m \<Rightarrow> Inr (obsSceneItemId m))) ids")
  case (Inl e)
  with assms show ?thesis by (simp add: makeItemsActive_def)
next
  case (Inr obsIds)
  show ?thesis
  proof (cases "scenes w this")
    case None
    with Inr assms show ?thesis
      by (simp add: makeItemsActive_def MAKE_SOURCES_ACTIVE_def sceneState_def)
  next
    case (Some sc)
    have "i \<in> set (slotIds (items sc))" if "i \<in> set ids" for i
      using mapR_Inr_all [OF Inr that] Some
      by (auto simp: getItem_def sceneState_def split: sum.splits option.splits
          dest: findItem_Some_id)
    moreover have "sceneInv sc"
      using assms Some by (rule storeInv_scene)
    ultimately have "sceneInv (sc\<lparr>activeItemIds := ids\<rparr>)"
      by (auto simp: sceneInv_def)
    with Inr Some assms show ?thesis
      by (simp add: makeItemsActive_def MAKE_SOURCES_ACTIVE_def sceneState_def storeInv_putScene)
  qed
qed

lemma REMOVE_SOURCE_FROM_SCENE_inv:
  assumes "storeInv w"
  shows "storeInv (snd (REMOVE_SOURCE_FROM_SCENE w this i))"
proof (cases "scenes w this")
  case None
  with assms show ?thesis
    by (simp add: REMOVE_SOURCE_FROM_SCENE_def sceneState_def)
next
  case (Some sc)
  define sc1 where "sc1 = (if i \<in> set (activeItemIds sc)
                      then sc\<lparr>activeItemIds := removeAll i (activeItemIds sc)\<rparr> else sc)"
  have inv: "sceneInv sc"
    using assms Some by (rule storeInv_scene)
  then have inv1: "sceneInv sc1"
    by (auto simp: sceneInv_def sc1_def)
  have act: "i \<notin> set (activeItemIds sc1)" and its: "items sc1 = items sc"
    by (simp_all add: sc1_def)
  show ?thesis
  proof (cases "withoutItem i (items sc1)")
    case (Inl e)
    with Some assms inv1 show ?thesis
      by (simp add: REMOVE_SOURCE_FROM_SCENE_def sceneState_def Let_def storeInv_putScene
          flip: sc1_def)
  next
    case (Inr kept)
    from withoutItem_ids [OF Inr] inv1 act have "sceneInv (sc1\<lparr>items := kept\<rparr>)"
      by (auto simp: sceneInv_def)
    with Some assms Inr show ?thesis
      by (simp add: REMOVE_SOURCE_FROM_SCENE_def sceneState_def Let_def storeInv_putScene
          flip: sc1_def)
  qed
qed

lemma removeItem_inv: "storeInv w \<Longrightarrow> storeInv (snd (removeItem w this i))"
  by (auto simp: removeItem_def REMOVE_SOURCE_FROM_SCENE_inv split: sum.splits option.splits)

lemma mapR_findItem_ids:
  "mapR (\<lambda>i. findItem i xs) order = Inr slots \<Longrightarrow> set order \<subseteq> set (slotIds xs) \<Longrightarrow>
     slotIds slots = order"
proof (induction order arbitrary: slots)
  case Nil
  then show ?case by simp
next
  case (Cons i order)
  then show ?case
    by (auto split: sum.splits dest!: findItem_Inr_present)
qed

lemma setSourceOrder_inv:
  assumes "storeInv w" and "\<And>sc. scenes w this = Some sc \<Longrightarrow> mset order = mset (slotIds (items sc))"
  shows "storeInv (snd (setSourceOrder w this i positionDelta order))"
proof (cases "scenes w this")
  case None
  with assms show ?thesis
    by (simp add: setSourceOrder_def SET_SOURCE_ORDER_def getItemIndex_def sceneState_def
        split: sum.splits)
next
  case (Some sc)
  have inv: "sceneInv sc"
    using assms(1) Some by (rule storeInv_scene)
  have perm: "mset order = mset (slotIds (items sc))"
    using assms(2) Some by simp
  then have set: "set order = set (slotIds (items sc))"
    by (rule mset_eq_setD)
  have dist: "distinct order"
    using perm inv by (metis mset_eq_imp_distinct_iff sceneInv_def)
  show ?thesis
  proof (cases "mapR (\<lambda>i. findItem i (items sc)) order")
    case (Inl e)
    with Some assms show ?thesis
      by (simp add: setSourceOrder_def SET_SOURCE_ORDER_def getItemIndex_def sceneState_def
          split: sum.splits)
  next
    case (Inr slots)
    with set have "slotIds slots = order"
      using mapR_findItem_ids by blast
    with inv set dist have "sceneInv (sc\<lparr>items := slots\<rparr>)"
      by (simp add: sceneInv_def)
    with Some assms Inr show ?thesis
      by (simp add: setSourceOrder_def SET_SOURCE_ORDER_def getItemIndex_def sceneState_def
          storeInv_putScene split: sum.splits)
  qed
qed

lemma addSource_store:
  assumes "addSource w this sid options uid obsItem = Some (r, w')"
  shows "w' = w \<or>
    (\<exists>sc. scenes w this = Some sc \<and>
       w' = putScene w this
            (sc\<lparr>activeItemIds := [chooseId options uid],
                items := Some (fromObs obsItem (newItem (chooseId options uid) sid (obs_id obsItem)))
                           # items sc\<rparr>))"
proof (cases "\<exists>s sc. sources w sid = Some s \<and> canAddSource w this sid = Some (Inr True) \<and>
    scenes w this = Some sc")
  case True
  then obtain s sc where "sources w sid = Some s" "canAddSource w this sid = Some (Inr True)"
    "scenes w this = Some sc"
    by blast
  from addSource_Returned [OF this, of options uid obsItem] assms \<open>scenes w this = Some sc\<close>
  show ?thesis by auto
next
  case False
  with assms have "w' = w"
    by (auto simp: addSource_def ADD_SOURCE_TO_SCENE_def sceneState_def
        split: option.splits sum.splits bool.splits)
  then show ?thesis ..
qed

lemma addSource_inv:
  assumes "storeInv w" and "\<And>sc. scenes w this = Some sc \<Longrightarrow> chooseId options uid \<notin> set (slotIds (items sc))"
    and "addSource w this sid options uid obsItem = Some (r, w')"
  shows "storeInv w'"
  using addSource_store [OF assms(3)]
proof
  assume "w' = w"
  with assms(1) show ?thesis by simp
next
  assume "\<exists>sc. scenes w this = Some sc \<and>
       w' = putScene w this
            (sc\<lparr>activeItemIds := [chooseId options uid],
                items := Some (fromObs obsItem (newItem (chooseId options uid) sid (obs_id obsItem)))
                           # items sc\<rparr>)"
  then obtain sc where sc: "scenes w this = Some sc" and w': "w' = putScene w this
            (sc\<lparr>activeItemIds := [chooseId options uid],
                items := Some (fromObs obsItem (newItem (chooseId options uid) sid (obs_id obsItem)))
                           # items sc\<rparr>)"
    by blast
  have "sceneInv sc"
    using assms(1) sc by (rule storeInv_scene)
  with assms(2) [OF sc] have "sceneInv (sc\<lparr>activeItemIds := [chooseId options uid],
                items := Some (fromObs obsItem (newItem (chooseId options uid) sid (obs_id obsItem)))
                           # items sc\<rparr>)"
    by (simp add: sceneInv_def fromObs_ids newItem_ids)
  with assms(1) show ?thesis
    unfolding w' by (rule storeInv_putScene)
qed

lemma fromArrayItem_ids:
  "sceneItemId (fromArrayItem a m) = sceneItemId m" "sourceId (fromArrayItem a m) = sourceId m"
  by (simp_all add: fromArrayItem_def)

text \<open>One round of the loop of \<open>addSources\<close> on a scene that is in the store.\<close>

lemma addSources_round:
  assumes "scenes w this = Some sc"
  shows "bindS (ADD_SOURCE_TO_SCENE w this i sid n) (\<lambda>_ w1.
         bindS (getItem w1 this i, w1) (\<lambda>got w1.
         case got of
           None \<Rightarrow> (Inl TypeError, w1)
         | Some h \<Rightarrow> bindS (loadItemAttributes w1 h a) (\<lambda>_ w2. K w2))) =
       K (putScene w this (sc\<lparr>items := Some (fromArrayItem a (newItem i sid n)) # items sc\<rparr>))"
  using assms
  by (simp add: ADD_SOURCE_TO_SCENE_def sceneState_def getItem_def scenes_putScene newItem_ids
      loadItemAttributes_def UPDATE_def putScene_twice)

lemma addSourcesLoop_inv:
  assumes "storeInv w"
    and "\<And>sc. scenes w this = Some sc \<Longrightarrow>
           distinct (map info_id infos) \<and> set (map info_id infos) \<inter> set (slotIds (items sc)) = {}"
  shows "storeInv (snd (addSourcesLoop w this arrayItems infos sceneItems))"
  using assms
proof (induction w this arrayItems infos sceneItems rule: addSourcesLoop.induct)
  case (1 w this infos sceneItems)
  then show ?case by simp
next
  case (2 w this sceneItem arrayItems item infos obsItem sceneItems)
  show ?case
  proof (cases "scenes w this")
    case None
    with "2.prems"(1) show ?thesis
      by (simp add: ADD_SOURCE_TO_SCENE_def sceneState_def)
  next
    case (Some sc)
    define w2 where "w2 = putScene w this
      (sc\<lparr>items := Some (fromArrayItem sceneItem (newItem (info_id item) (info_sourceId item) (obs_id obsItem)))
                      # items sc\<rparr>)"
    have step: "addSourcesLoop w this (sceneItem # arrayItems) (item # infos) (obsItem # sceneItems) =
        addSourcesLoop w2 this arrayItems infos sceneItems"
      using addSources_round [OF Some, of "info_id item" "info_sourceId item" "obs_id obsItem"
          sceneItem "\<lambda>w2. addSourcesLoop w2 this arrayItems infos sceneItems"]
      by (simp add: w2_def)
    have inv: "sceneInv sc"
      using "2.prems"(1) Some by (rule storeInv_scene)
    from "2.prems"(2) [OF Some] have fresh: "info_id item \<notin> set (slotIds (items sc))"
      "info_id item \<notin> set (map info_id infos)" "distinct (map info_id infos)"
      "set (map info_id infos) \<inter> set (slotIds (items sc)) = {}"
      by auto
    have "sceneInv (sc\<lparr>items := Some (fromArrayItem sceneItem (newItem (info_id item) (info_sourceId item) (obs_id obsItem)))
                      # items sc\<rparr>)"
      using inv fresh(1) by (auto simp: sceneInv_def fromArrayItem_ids newItem_ids)
    with "2.prems"(1) have "storeInv w2"
      unfolding w2_def by (rule storeInv_putScene)
    moreover have "distinct (map info_id infos) \<and>
        set (map info_id infos) \<inter> set (slotIds (items sc')) = {}"
      if "scenes w2 this = Some sc'" for sc'
    proof -
      from that have "slotIds (items sc') = info_id item # slotIds (items sc)"
        by (auto simp: w2_def scenes_putScene fromArrayItem_ids newItem_ids)
      with fresh show ?thesis by auto
    qed
    ultimately have "storeInv (snd (addSourcesLoop w2 this arrayItems infos sceneItems))"
      by (rule "2.IH" [OF refl])
    then show ?thesis
      by (simp only: step)
  qed
qed simp_all

lemma addSources_inv:
  assumes "storeInv w"
    and "\<And>sc. scenes w this = Some sc \<Longrightarrow>
           distinct (map info_id infos) \<and> set (map info_id infos) \<inter> set (slotIds (items sc)) = {}"
  shows "storeInv (snd (addSources w this infos sceneItems))"
  unfolding addSources_def using assms by (rule addSourcesLoop_inv)

lemma storeInv_wActive: "storeInv wActive"
  by (auto simp: storeInv_def wActive_def sceneInv_def newItem_ids split: if_splits)

lemma not_storeInv_wDup: "\<not> storeInv wDup"
proof
  assume "storeInv wDup"
  moreover have "scenes wDup ''S1'' = Some \<lparr>name = ''Scene'', activeItemIds = [''i1''],
      items = [Some (newItem ''i1'' ''cam1'' 2), Some (newItem ''i1'' ''cam1'' 1)]\<rparr>"
    by (simp add: wDup_def)
  ultimately have "sceneInv \<lparr>name = ''Scene'', activeItemIds = [''i1''],
      items = [Some (newItem ''i1'' ''cam1'' 2), Some (newItem ''i1'' ''cam1'' 1)]\<rparr>"
    by (rule storeInv_scene)
  then show False
    by (simp add: sceneInv_def newItem_ids)
qed

lemma addSource_wDup:
  "addSource wActive ''S1'' ''cam1'' \<lparr>opt_sceneItemId = Some ''i1''\<rparr> ''i9'' (obsDefault 2) =
     Some (Inr (Some \<lparr>h_sceneId = ''S1'', h_sceneItemId = ''i1'', h_sourceId = ''cam1''\<rparr>), wDup)"
proof -
  have "sources wActive ''cam1'' = Some cameraSource"
    by (simp add: wActive_def)
  moreover have "scenes wActive ''S1'' = Some \<lparr>name = ''Scene'', activeItemIds = [''i1''],
                                   items = [Some (newItem ''i1'' ''cam1'' 1)]\<rparr>"
    by (simp add: wActive_def)
  ultimately show ?thesis
    using addSource_Returned [OF _ canAddSource_camera, of cameraSource _
        "\<lparr>opt_sceneItemId = Some ''i1''\<rparr>" "''i9''" "obsDefault 2"]
    by (simp add: chooseId_def fromObs_default wDup_def putScene_def wActive_def
        obs_id_obsDefault)
qed

text \<open>
  Claim C7, as amended. The two invariants (every active id is the id of an item, no id
  appears twice in \<open>items\<close>) hold in every scene of the store after \<open>addSource\<close>,
  \<open>addSources\<close>, \<open>removeItem\<close>, \<open>makeItemsActive\<close>, \<open>setSourceOrder\<close> and \<open>setName\<close>,
  whether the operation returned or threw, when they held before and the arguments are
  admissible: the id used by \<open>addSource\<close> is not yet in the scene, the ids given to
  \<open>addSources\<close> are distinct and not yet in the scene, and the order given to
  \<open>setSourceOrder\<close> is a permutation of the ids of the scene.
\<close>

theorem invariants_preserved:
  assumes "storeInv w"
    and "\<And>sc. scenes w this = Some sc \<Longrightarrow> admissible sc op"
    and "storeAfter w this op = Some w'"
  shows "storeInv w'"
proof (cases op)
  case (AddSource sid options uid obsItem)
  with assms(3) obtain r where "addSource w this sid options uid obsItem = Some (r, w')"
    by auto
  with assms(1,2) AddSource show ?thesis
    using addSource_inv [of w this options uid sid obsItem r w'] by simp
next
  case (AddSources infos sceneItems)
  with assms show ?thesis
    using addSources_inv [of w this infos sceneItems] by auto
next
  case (RemoveItem i)
  with assms show ?thesis
    using removeItem_inv [of w this i] by auto
next
  case (MakeItemsActive ids)
  with assms show ?thesis
    using makeItemsActive_inv [of w this ids] by auto
next
  case (SetSourceOrder i positionDelta order)
  with assms show ?thesis
    using setSourceOrder_inv [of w this order i positionDelta] by auto
next
  case (SetName newName)
  with assms show ?thesis
    using setName_inv [of w this newName] by auto
qed

theorem invariants_preserved_witness:
  "storeInv wActive'"
proof (rule invariants_preserved [of wActive "''S1''" "AddSource ''cam1'' noOptions ''i2'' (obsDefault 2)"])
  show "storeInv wActive"
    by (rule storeInv_wActive)
  show "admissible sc (AddSource ''cam1'' noOptions ''i2'' (obsDefault 2))"
    if "scenes wActive ''S1'' = Some sc" for sc
    using that by (auto simp: wActive_def chooseId_def noOptions_def newItem_ids)
  show "storeAfter wActive ''S1'' (AddSource ''cam1'' noOptions ''i2'' (obsDefault 2)) = Some wActive'"
    by (simp add: addSource_wActive)
qed

text \<open>
  The claim as stated fails for a caller-supplied id that is already in the scene:
  \<open>addSource\<close> neither rejects nor replaces, it inserts a second record under the same id.
\<close>

theorem invariants_duplicate_id_counterexample:
  "storeInv wActive \<and>
   addSource wActive ''S1'' ''cam1'' \<lparr>opt_sceneItemId = Some ''i1''\<rparr> ''i9'' (obsDefault 2) =
     Some (Inr (Some \<lparr>h_sceneId = ''S1'', h_sceneItemId = ''i1'', h_sourceId = ''cam1''\<rparr>), wDup) \<and>
   map_option (\<lambda>sc. slotIds (items sc)) (scenes wDup ''S1'') = Some [''i1'', ''i1''] \<and>
   \<not> storeInv wDup"
  using storeInv_wActive addSource_wDup not_storeInv_wDup
  by (simp add: wDup_def newItem_ids)

section \<open>Child scenes and the graph\<close>

lemma isSceneItem_source: "isSceneItem w h = isSceneSource w (h_sourceId h)"
  by (simp add: isSceneItem_def isSceneSource_def)

lemma mapR_Inr_set: "mapR f xs = Inr ys \<Longrightarrow> y \<in> set ys \<Longrightarrow> \<exists>x\<in>set xs. f x = Inr y"
  by (induction xs arbitrary: ys) (auto split: sum.splits)

lemma mapR_all_Inr: "(\<And>x. x \<in> set xs \<Longrightarrow> f x = Inr (g x)) \<Longrightarrow> mapR f xs = Inr (map g xs)"
  by (induction xs) auto

lemma findItem_Some_mem: "findItem i xs = Inr (Some m) \<Longrightarrow> Some m \<in> set xs"
  by (induction xs rule: slotIds.induct) (auto split: if_splits)

lemma slotIds_mem: "Some m \<in> set xs \<Longrightarrow> sceneItemId m \<in> set (slotIds xs)"
  by (induction xs rule: slotIds.induct) auto

lemma findItem_own:
  "None \<notin> set xs \<Longrightarrow> distinct (slotIds xs) \<Longrightarrow> Some m \<in> set xs \<Longrightarrow>
     findItem (sceneItemId m) xs = Inr (Some m)"
  by (induction xs rule: slotIds.induct) (auto dest: slotIds_mem)

lemma getItems_member:
  assumes "getItems w p = Inr hs" and "h \<in> set hs"
  shows "\<exists>sc m. scenes w p = Some sc \<and> Some m \<in> set (items sc) \<and> h_sourceId h = sourceId m"
proof -
  from assms(1) obtain sc where sc: "scenes w p = Some sc"
    by (auto simp: getItems_def sceneState_def split: option.splits)
  with assms obtain slot where "slot \<in> set (items sc)"
    "(case slot of
                  None \<Rightarrow> Inl TypeError
                | Some sourceModel \<Rightarrow>
                    (case getItem w p (sceneItemId sourceModel) of
                       Inl e \<Rightarrow> Inl e
                     | Inr None \<Rightarrow> Inl TypeError
                     | Inr (Some h) \<Rightarrow> Inr h)) = Inr h"
    by (auto simp: getItems_def sceneState_def dest!: mapR_Inr_set)
  with sc show ?thesis
    by (auto simp: getItem_def sceneState_def split: option.splits sum.splits
        dest!: findItem_Some_mem)
qed

lemma getItems_wellFormed:
  assumes "wellFormed w" and "scenes w p = Some sc"
  shows "getItems w p = Inr (map (handleOf p) (items sc))"
proof -
  from assms have d: "None \<notin> set (items sc)" "distinct (slotIds (items sc))"
    by (auto simp: wellFormed_def)
  have "(case slot of
                  None \<Rightarrow> Inl TypeError
                | Some sourceModel \<Rightarrow>
                    (case getItem w p (sceneItemId sourceModel) of
                       Inl e \<Rightarrow> Inl e
                     | Inr None \<Rightarrow> Inl TypeError
                     | Inr (Some h) \<Rightarrow> Inr h)) = Inr (handleOf p slot)"
    if "slot \<in> set (items sc)" for slot
  proof (cases slot)
    case None
    with that d show ?thesis by simp
  next
    case (Some m)
    with that d have "findItem (sceneItemId m) (items sc) = Inr (Some m)"
      by (simp add: findItem_own)
    with Some assms(2) show ?thesis
      by (simp add: getItem_def sceneState_def handleOf_def)
  qed
  then show ?thesis
    using assms(2) by (simp add: getItems_def sceneState_def mapR_all_Inr)
qed

lemma mapR_getScene:
  "mapR (\<lambda>h. getScene w (h_sourceId h)) hs = Inr cs \<Longrightarrow>
     cs = map h_sourceId hs \<and> (\<forall>h\<in>set hs. scenes w (h_sourceId h) \<noteq> None)"
  by (induction hs arbitrary: cs) (auto simp: getScene_def split: sum.splits if_splits)

lemma callRel_sceneRefs: "callRel w \<subseteq> sceneRefs w"
proof
  fix x assume "x \<in> callRel w"
  then obtain p c cs where x: "x = (p, c)" and cs: "childScenes w p = Inr cs" "c \<in> set cs"
    by (auto simp: callRel_def)
  then obtain hs where hs: "getItems w p = Inr hs"
    "mapR (\<lambda>h. getScene w (h_sourceId h)) (filter (isSceneItem w) hs) = Inr cs"
    by (auto simp: childScenes_def split: sum.splits)
  from mapR_getScene [OF hs(2)] cs(2) obtain h where "h \<in> set hs" "isSceneItem w h" "c = h_sourceId h"
    by auto
  moreover from getItems_member [OF hs(1) this(1)] obtain sc m where
    "scenes w p = Some sc" "Some m \<in> set (items sc)" "h_sourceId h = sourceId m"
    by blast
  ultimately show "x \<in> sceneRefs w"
    by (auto simp: x sceneRefs_def isSceneItem_source)
qed

lemma callRel_dom: "callRel w \<subseteq> dom (scenes w) \<times> dom (scenes w)"
proof
  fix x assume "x \<in> callRel w"
  then obtain p c cs where x: "x = (p, c)" and cs: "childScenes w p = Inr cs" "c \<in> set cs"
    by (auto simp: callRel_def)
  then obtain hs where hs: "getItems w p = Inr hs"
    "mapR (\<lambda>h. getScene w (h_sourceId h)) (filter (isSceneItem w) hs) = Inr cs"
    by (auto simp: childScenes_def split: sum.splits)
  from hs(1) have "p \<in> dom (scenes w)"
    by (auto simp: getItems_def sceneState_def split: option.splits)
  moreover from mapR_getScene [OF hs(2)] cs(2) have "c \<in> dom (scenes w)"
    by auto
  ultimately show "x \<in> dom (scenes w) \<times> dom (scenes w)"
    by (simp add: x)
qed

lemma wf_callRel:
  assumes "finite (dom (scenes w))" and "acyclic (sceneRefs w)"
  shows "wf ((callRel w)\<inverse>)"
proof (rule finite_acyclic_wf_converse)
  have "finite (dom (scenes w) \<times> dom (scenes w))"
    using assms(1) by simp
  with callRel_dom show "finite (callRel w)"
    by (rule finite_subset)
  show "acyclic (callRel w)"
    using assms(2) callRel_sceneRefs by (rule acyclic_subset)
qed

lemma childScenes_wellFormed:
  assumes "wellFormed w" and "scenes w p = Some sc"
  shows "\<exists>cs. childScenes w p = Inr cs \<and> set cs = {c. (p, c) \<in> sceneRefs w}"
proof -
  let ?hs = "filter (isSceneItem w) (map (handleOf p) (items sc))"
  have "getScene w (h_sourceId h) = Inr (h_sourceId h)" if "h \<in> set ?hs" for h
    using that assms(1) by (auto simp: getScene_def wellFormed_def isSceneItem_source)
  then have "mapR (\<lambda>h. getScene w (h_sourceId h)) ?hs = Inr (map h_sourceId ?hs)"
    by (rule mapR_all_Inr)
  then have cs: "childScenes w p = Inr (map h_sourceId ?hs)"
    using getItems_wellFormed [OF assms] by (simp add: childScenes_def)
  from assms have d: "None \<notin> set (items sc)"
    by (auto simp: wellFormed_def)
  have "set (map h_sourceId ?hs) = {c. (p, c) \<in> sceneRefs w}"
  proof (intro set_eqI iffI)
    fix c assume "c \<in> set (map h_sourceId ?hs)"
    then obtain slot where "slot \<in> set (items sc)" "isSceneSource w (sourceId (the slot))"
      "c = sourceId (the slot)"
      by (auto simp: handleOf_def isSceneItem_source)
    moreover with d obtain m where "slot = Some m"
      by (cases slot) auto
    ultimately show "c \<in> {c. (p, c) \<in> sceneRefs w}"
      using assms(2) by (auto simp: sceneRefs_def)
  next
    fix c assume "c \<in> {c. (p, c) \<in> sceneRefs w}"
    with assms(2) obtain m where "Some m \<in> set (items sc)" "sourceId m = c" "isSceneSource w c"
      by (auto simp: sceneRefs_def)
    then have "handleOf p (Some m) \<in> set ?hs" "h_sourceId (handleOf p (Some m)) = c"
      by (simp_all add: isSceneItem_source) (simp_all add: handleOf_def)
    then show "c \<in> set (map h_sourceId ?hs)"
      by (metis image_eqI set_map)
  qed
  with cs show ?thesis by blast
qed

section \<open>Termination and result of hasNestedScene\<close>

lemma anyChild_returns:
  "(\<And>c. c \<in> set cs \<Longrightarrow> \<exists>r. rec c = Some r) \<Longrightarrow> \<exists>r. anyChild rec t cs = Some r"
proof (induction cs)
  case Nil
  then show ?case by simp
next
  case (Cons c cs)
  then obtain r where r: "rec c = Some r" by auto
  from Cons obtain r' where "anyChild rec t cs = Some r'" by auto
  with r show ?case
    by (cases r) (auto split: bool.splits)
qed

lemma anyChild_exact:
  "(\<And>c. c \<in> set cs \<Longrightarrow> rec c = Some (Inr (P c))) \<Longrightarrow>
     anyChild rec t cs = Some (Inr (\<exists>c\<in>set cs. c = t \<or> P c))"
  by (induction cs) (auto split: bool.splits)

lemma hasNestedScene_returns:
  assumes "wf ((callRel w)\<inverse>)"
  shows "\<exists>r. hasNestedScene w this t = Some r"
  using assms
proof (induction this rule: wf_induct_rule)
  case (less this)
  show ?case
  proof (cases "childScenes w this")
    case (Inl e)
    then show ?thesis
      by (subst hasNestedScene.simps) simp
  next
    case (Inr cs)
    have "\<exists>r. hasNestedScene w c t = Some r" if "c \<in> set cs" for c
      using that Inr by (intro less.IH) (auto simp: callRel_def)
    then have "\<exists>r. anyChild (\<lambda>c. hasNestedScene w c t) t cs = Some r"
      by (rule anyChild_returns)
    with Inr show ?thesis
      by (subst hasNestedScene.simps) simp
  qed
qed

lemma trancl_first_step:
  "(a, b) \<in> r\<^sup>+ \<longleftrightarrow> (\<exists>c. (a, c) \<in> r \<and> (c = b \<or> (c, b) \<in> r\<^sup>+))"
  by (metis converse_tranclE r_into_trancl' trancl_into_trancl2)

lemma hasNestedScene_exact:
  assumes "wellFormed w" and "wf ((sceneRefs w)\<inverse>)" and "scenes w this \<noteq> None"
  shows "hasNestedScene w this t = Some (Inr ((this, t) \<in> (sceneRefs w)\<^sup>+))"
  using assms(2,3)
proof (induction this rule: wf_induct_rule)
  case (less this)
  from less.prems obtain sc where sc: "scenes w this = Some sc" by auto
  from childScenes_wellFormed [OF assms(1) sc] obtain cs where
    cs: "childScenes w this = Inr cs" "set cs = {c. (this, c) \<in> sceneRefs w}"
    by blast
  have "hasNestedScene w c t = Some (Inr ((c, t) \<in> (sceneRefs w)\<^sup>+))" if "c \<in> set cs" for c
  proof (rule less.IH)
    from that cs(2) show "(c, this) \<in> (sceneRefs w)\<inverse>" by simp
    from that cs(2) have "isSceneSource w c"
      by (auto simp: sceneRefs_def)
    with assms(1) show "scenes w c \<noteq> None"
      by (simp add: wellFormed_def)
  qed
  then have "anyChild (\<lambda>c. hasNestedScene w c t) t cs =
      Some (Inr (\<exists>c\<in>set cs. c = t \<or> (c, t) \<in> (sceneRefs w)\<^sup>+))"
    by (rule anyChild_exact)
  moreover have "(\<exists>c\<in>set cs. c = t \<or> (c, t) \<in> (sceneRefs w)\<^sup>+) \<longleftrightarrow> (this, t) \<in> (sceneRefs w)\<^sup>+"
    using cs(2) by (subst (2) trancl_first_step) auto
  ultimately show ?case
    using cs(1) by (subst hasNestedScene.simps) simp
qed

lemma wf_sceneRefs:
  assumes "wellFormed w" and "finite (dom (scenes w))" and "acyclic (sceneRefs w)"
  shows "wf ((sceneRefs w)\<inverse>)"
proof (rule finite_acyclic_wf_converse)
  have "sceneRefs w \<subseteq> dom (scenes w) \<times> dom (scenes w)"
    using assms(1) by (auto simp: sceneRefs_def wellFormed_def)
  moreover have "finite (dom (scenes w) \<times> dom (scenes w))"
    using assms(2) by simp
  ultimately show "finite (sceneRefs w)"
    by (rule finite_subset)
qed (rule assms(3))

text \<open>On the self-referring scene \<open>B\<close> the search for \<open>A\<close> calls itself with the same arguments.\<close>

lemma childScenes_wLoop_B: "childScenes wLoop ''B'' = Inr [''B'']"
  by (simp add: childScenes_def getItems_def sceneState_def wLoop_def getItem_def newItem_ids
      isSceneItem_def sceneSource_def getScene_def)

lemma hasNestedScene_wLoop: "hasNestedScene wLoop ''B'' ''A'' = None"
proof (rule ccontr)
  assume "hasNestedScene wLoop ''B'' ''A'' \<noteq> None"
  then obtain y where y: "hasNestedScene wLoop ''B'' ''A'' = Some y"
    by auto
  have "\<not> (w = wLoop \<and> this = ''B'' \<and> t = ''A'')" if "hasNestedScene w this t = Some r" for w this t r
  proof (rule hasNestedScene.raw_induct
      [where P = "\<lambda>w this t r. \<not> (w = wLoop \<and> this = ''B'' \<and> t = ''A'')", OF _ that])
    fix hns w this t r
    assume IH: "\<And>w this t r. hns w this t = Some r \<Longrightarrow> \<not> (w = wLoop \<and> this = ''B'' \<and> t = ''A'')"
      and body: "(case childScenes w this of
                    Inl e \<Rightarrow> Some (Inl e)
                  | Inr cs \<Rightarrow> anyChild (\<lambda>childScene. hns w childScene t) t cs) = Some r"
    show "\<not> (w = wLoop \<and> this = ''B'' \<and> t = ''A'')"
    proof
      assume "w = wLoop \<and> this = ''B'' \<and> t = ''A''"
      with body childScenes_wLoop_B obtain r' where "hns wLoop ''B'' ''A'' = Some r'"
        by (auto split: option.splits)
      from IH [OF this] show False by simp
    qed
  qed
  from this [OF y] show False by simp
qed

lemma wellFormed_wLoop: "wellFormed wLoop"
  by (auto simp: wellFormed_def wLoop_def emptyScene_def newItem_ids isSceneSource_def
      split: if_splits)

section \<open>The diamond store\<close>

lemma rank_trancl:
  fixes f :: "'a \<Rightarrow> nat"
  assumes "\<And>a b. (a, b) \<in> r \<Longrightarrow> f b < f a" and "(a, b) \<in> r\<^sup>+"
  shows "f b < f a"
  using assms(2)
proof (induction rule: trancl_induct)
  case (base y)
  then show ?case by (rule assms(1))
next
  case (step y z)
  from assms(1) [OF step.hyps(2)] step.IH show ?case by simp
qed

lemma rank_acyclic:
  fixes f :: "'a \<Rightarrow> nat"
  assumes "\<And>a b. (a, b) \<in> r \<Longrightarrow> f b < f a"
  shows "acyclic r"
  unfolding acyclic_def
proof
  fix x
  show "(x, x) \<notin> r\<^sup>+"
    using rank_trancl [of r f x x] assms by blast
qed

lemma sceneRefs_wDiamond: "sceneRefs wDiamond = {(''S'', ''C''), (''S'', ''D''), (''D'', ''C'')}"
  by (auto simp: sceneRefs_def wDiamond_def isSceneSource_def sceneSource_def cameraSource_def
      newItem_ids split: if_splits)

lemma rankDiamond: "(a, b) \<in> sceneRefs wDiamond \<Longrightarrow> rankDiamond b < rankDiamond a"
  by (auto simp: sceneRefs_wDiamond rankDiamond_def)

lemma acyclic_wDiamond: "acyclic (sceneRefs wDiamond)"
  using rankDiamond by (rule rank_acyclic)

lemma wellFormed_wDiamond: "wellFormed wDiamond"
  by (auto simp: wellFormed_def wDiamond_def newItem_ids isSceneSource_def cameraSource_def
      split: if_splits)

lemma finite_wDiamond: "finite (dom (scenes wDiamond))"
  by (simp add: wDiamond_def)

lemma reach_wDiamond:
  "(''S'', ''C'') \<in> (sceneRefs wDiamond)\<^sup>+" "(''C'', ''S'') \<notin> (sceneRefs wDiamond)\<^sup>+"
proof -
  show "(''S'', ''C'') \<in> (sceneRefs wDiamond)\<^sup>+"
    by (rule r_into_trancl) (simp add: sceneRefs_wDiamond)
  show "(''C'', ''S'') \<notin> (sceneRefs wDiamond)\<^sup>+"
    using rank_trancl [of "sceneRefs wDiamond" rankDiamond "''C''" "''S''"] rankDiamond
    by (auto simp: rankDiamond_def)
qed

section \<open>Acyclicity\<close>

text \<open>
  Claim C8, as amended. \<open>hasNestedScene\<close> is a plain recursion over the child scenes,
  with no visited set. On every store with finitely many scenes whose scene-reference
  graph is acyclic it returns (a value or a thrown error), and when the store is also
  well-formed and the scene is in it, it returns true exactly when \<open>sceneId\<close> is reached
  from this scene by one or more references: it is a child scene or nested within one.
\<close>

theorem hasNestedScene_acyclic:
  assumes "finite (dom (scenes w))" and "acyclic (sceneRefs w)"
  shows "(\<exists>r. hasNestedScene w this sceneId = Some r) \<and>
         (wellFormed w \<and> scenes w this \<noteq> None \<longrightarrow>
            hasNestedScene w this sceneId = Some (Inr ((this, sceneId) \<in> (sceneRefs w)\<^sup>+)))"
proof
  show "\<exists>r. hasNestedScene w this sceneId = Some r"
    using wf_callRel [OF assms] by (rule hasNestedScene_returns)
  show "wellFormed w \<and> scenes w this \<noteq> None \<longrightarrow>
            hasNestedScene w this sceneId = Some (Inr ((this, sceneId) \<in> (sceneRefs w)\<^sup>+))"
    using assms by (auto intro!: hasNestedScene_exact wf_sceneRefs)
qed

theorem hasNestedScene_acyclic_witness:
  "(\<exists>r. hasNestedScene wDiamond ''S'' ''C'' = Some r) \<and>
   hasNestedScene wDiamond ''S'' ''C'' = Some (Inr True) \<and>
   hasNestedScene wDiamond ''C'' ''S'' = Some (Inr False)"
  using hasNestedScene_acyclic [OF finite_wDiamond acyclic_wDiamond, of "''S''" "''C''"]
    hasNestedScene_acyclic [OF finite_wDiamond acyclic_wDiamond, of "''C''" "''S''"]
    wellFormed_wDiamond reach_wDiamond
  by (simp add: wDiamond_def)

text \<open>
  The claim as stated fails on a store whose graph has a cycle: in \<open>wLoop\<close>, which is
  well-formed except that scene \<open>B\<close> holds itself, \<open>B.hasNestedScene(A)\<close> does not return.
\<close>

theorem hasNestedScene_cyclic_counterexample:
  "wellFormed wLoop \<and> finite (dom (scenes wLoop)) \<and> (''B'', ''B'') \<in> sceneRefs wLoop \<and>
   hasNestedScene wLoop ''B'' ''A'' = None"
proof -
  have "finite (dom (scenes wLoop))"
    by (simp add: wLoop_def)
  moreover have "(''B'', ''B'') \<in> sceneRefs wLoop"
    by (simp add: sceneRefs_def wLoop_def isSceneSource_def sceneSource_def newItem_ids)
  ultimately show ?thesis
    using wellFormed_wLoop hasNestedScene_wLoop by simp
qed

text \<open>
  Claim C1. \<open>canAddSource\<close> enforces acyclicity. For every resolvable source of a type
  other than scene it returns true. For a source of type scene it returns false when the
  candidate is this scene itself, and, on a well-formed store with finitely many scenes and
  an acyclic scene-reference graph (the invariants of the data model), it returns false
  exactly when the candidate is this scene or transitively contains this scene, and true
  otherwise.
\<close>

theorem canAddSource_policy:
  assumes "sources w sid = Some source"
  shows "(sourceType source \<noteq> ''scene'' \<longrightarrow> canAddSource w this sid = Some (Inr True)) \<and>
         (sourceType source = ''scene'' \<and> sid = this \<longrightarrow> canAddSource w this sid = Some (Inr False)) \<and>
         (sourceType source = ''scene'' \<and> wellFormed w \<and> finite (dom (scenes w)) \<and>
          acyclic (sceneRefs w) \<longrightarrow>
            canAddSource w this sid =
              Some (Inr (\<not> (sid = this \<or> (sid, this) \<in> (sceneRefs w)\<^sup>+))))"
proof (intro conjI impI)
  assume "sourceType source \<noteq> ''scene''"
  with assms show "canAddSource w this sid = Some (Inr True)"
    by (simp add: canAddSource_def)
next
  assume "sourceType source = ''scene'' \<and> sid = this"
  with assms show "canAddSource w this sid = Some (Inr False)"
    by (simp add: canAddSource_def)
next
  assume a: "sourceType source = ''scene'' \<and> wellFormed w \<and> finite (dom (scenes w)) \<and>
          acyclic (sceneRefs w)"
  with assms have "isSceneSource w sid"
    by (simp add: isSceneSource_def)
  with a have sc: "scenes w sid \<noteq> None"
    by (simp add: wellFormed_def)
  from a have "wf ((sceneRefs w)\<inverse>)"
    by (simp add: wf_sceneRefs)
  with a sc have "hasNestedScene w sid this = Some (Inr ((sid, this) \<in> (sceneRefs w)\<^sup>+))"
    by (simp add: hasNestedScene_exact)
  with assms a sc show "canAddSource w this sid =
              Some (Inr (\<not> (sid = this \<or> (sid, this) \<in> (sceneRefs w)\<^sup>+)))"
    by (auto simp: canAddSource_def getScene_def)
qed

theorem canAddSource_policy_witness:
  "canAddSource wDiamond ''S'' ''cam1'' = Some (Inr True) \<and>
   canAddSource wDiamond ''S'' ''S'' = Some (Inr False) \<and>
   canAddSource wDiamond ''C'' ''S'' = Some (Inr False) \<and>
   canAddSource wDiamond ''S'' ''C'' = Some (Inr True)"
proof -
  have cam: "sources wDiamond ''cam1'' = Some cameraSource"
    and S: "sources wDiamond ''S'' = Some sceneSource"
    and C: "sources wDiamond ''C'' = Some sceneSource"
    by (simp_all add: wDiamond_def)
  have "canAddSource wDiamond ''S'' ''cam1'' = Some (Inr True)"
    using canAddSource_policy [OF cam, of "''S''"] by (simp add: cameraSource_def)
  moreover have "canAddSource wDiamond ''S'' ''S'' = Some (Inr False)"
    using canAddSource_policy [OF S, of "''S''"] by (simp add: sceneSource_def)
  moreover have "canAddSource wDiamond ''C'' ''S'' = Some (Inr False)"
    using canAddSource_policy [OF S, of "''C''"] wellFormed_wDiamond finite_wDiamond
      acyclic_wDiamond reach_wDiamond
    by (simp add: sceneSource_def)
  moreover have "canAddSource wDiamond ''S'' ''C'' = Some (Inr True)"
    using canAddSource_policy [OF C, of "''S''"] wellFormed_wDiamond finite_wDiamond
      acyclic_wDiamond reach_wDiamond
    by (simp add: sceneSource_def)
  ultimately show ?thesis by simp
qed

section \<open>Nested items\<close>

subsection \<open>First occurrences\<close>

lemma uniqByFrom_seen: "set seen = set seen' \<Longrightarrow> uniqByFrom key seen xs = uniqByFrom key seen' xs"
proof (induction xs arbitrary: seen seen')
  case Nil
  show ?case by simp
next
  case (Cons x xs)
  have "uniqByFrom key seen xs = uniqByFrom key seen' xs"
    using Cons.prems by (rule Cons.IH)
  moreover have "uniqByFrom key (seen @ [key x]) xs = uniqByFrom key (seen' @ [key x]) xs"
    by (rule Cons.IH) (simp add: Cons.prems)
  ultimately show ?case
    using Cons.prems by simp
qed

lemma uniqByFrom_append:
  "uniqByFrom key seen (xs @ ys) = uniqByFrom key seen xs @ uniqByFrom key (seen @ map key xs) ys"
proof (induction xs arbitrary: seen)
  case Nil
  then show ?case by simp
next
  case (Cons x xs)
  show ?case
  proof (cases "key x \<in> set seen")
    case True
    have "uniqByFrom key (seen @ map key xs) ys = uniqByFrom key (seen @ map key (x # xs)) ys"
      by (rule uniqByFrom_seen) (use True in auto)
    with True Cons [of seen] show ?thesis by simp
  next
    case False
    have "uniqByFrom key ((seen @ [key x]) @ map key xs) ys = uniqByFrom key (seen @ map key (x # xs)) ys"
      by (rule uniqByFrom_seen) auto
    with False Cons [of "seen @ [key x]"] show ?thesis by simp
  qed
qed

lemma uniqByFrom_keys: "set seen \<union> key ` set (uniqByFrom key seen xs) = set seen \<union> key ` set xs"
proof (induction xs arbitrary: seen)
  case Nil
  show ?case by simp
next
  case (Cons x xs)
  show ?case
  proof (cases "key x \<in> set seen")
    case True
    with Cons [of seen] show ?thesis by auto
  next
    case False
    with Cons [of "seen @ [key x]"] show ?thesis by auto
  qed
qed

lemma uniqByFrom_idem:
  "set seen0 \<subseteq> set seen \<Longrightarrow> uniqByFrom key seen (uniqByFrom key seen0 xs) = uniqByFrom key seen xs"
proof (induction xs arbitrary: seen seen0)
  case Nil
  show ?case by simp
next
  case (Cons x xs)
  show ?case
  proof (cases "key x \<in> set seen0")
    case True
    with Cons.prems have "key x \<in> set seen" by auto
    with True Cons.IH [OF Cons.prems] show ?thesis by simp
  next
    case False
    have sub: "set (seen0 @ [key x]) \<subseteq> set seen" if "key x \<in> set seen"
      using that Cons.prems by auto
    have sub': "set (seen0 @ [key x]) \<subseteq> set (seen @ [key x])"
      using Cons.prems by auto
    show ?thesis
    proof (cases "key x \<in> set seen")
      case True
      with False Cons.IH [OF sub] show ?thesis by simp
    next
      case notin: False
      with False Cons.IH [OF sub'] show ?thesis by simp
    qed
  qed
qed

lemma uniqByFrom_concat:
  "uniqByFrom key seen (concat (map (\<lambda>r. uniqBy r key) rs)) = uniqByFrom key seen (concat rs)"
proof (induction rs arbitrary: seen)
  case Nil
  then show ?case by simp
next
  case (Cons r rs)
  have "set (seen @ map key (uniqByFrom key [] r)) = set (seen @ map key r)"
    using uniqByFrom_keys [of "[]" key r] by auto
  then have "uniqByFrom key (seen @ map key (uniqByFrom key [] r)) (concat rs) =
      uniqByFrom key (seen @ map key r) (concat rs)"
    by (rule uniqByFrom_seen)
  moreover have "uniqByFrom key seen (uniqByFrom key [] r) = uniqByFrom key seen r"
    by (rule uniqByFrom_idem) simp
  ultimately show ?case
    using Cons [of "seen @ map key (uniqByFrom key [] r)"]
    by (simp add: uniqByFrom_append uniqBy_def)
qed

lemma uniqBy_nested:
  "uniqBy (own @ concat (map (\<lambda>r. uniqBy r key) rs)) key = uniqBy (own @ concat rs) key"
  using uniqByFrom_concat [of key "[] @ map key own" rs]
  by (simp add: uniqBy_def uniqByFrom_append)

lemma uniqByFrom_distinct:
  "distinct (map key (uniqByFrom key seen xs)) \<and> key ` set (uniqByFrom key seen xs) \<inter> set seen = {}"
proof (induction xs arbitrary: seen)
  case Nil
  show ?case by simp
next
  case (Cons x xs)
  show ?case
  proof (cases "key x \<in> set seen")
    case True
    with Cons [of seen] show ?thesis by simp
  next
    case False
    with Cons [of "seen @ [key x]"] show ?thesis by auto
  qed
qed

lemma uniqBy_distinct: "distinct (map key (uniqBy xs key))"
  by (simp add: uniqBy_def uniqByFrom_distinct)

subsection \<open>The result of getNestedItems\<close>

lemma ex_list_all2: "(\<And>x. x \<in> set xs \<Longrightarrow> \<exists>y. R x y) \<Longrightarrow> \<exists>ys. list_all2 R xs ys"
proof (induction xs)
  case Nil
  show ?case by simp
next
  case (Cons x xs)
  then obtain y ys where "R x y" "list_all2 R xs ys"
    by (metis list.set_intros)
  then have "list_all2 R (x # xs) (y # ys)" by simp
  then show ?case ..
qed

lemma mapM_list_all2:
  "list_all2 (\<lambda>x y. f x = Some (Inr (g y))) xs ys \<Longrightarrow> mapM f xs = Some (Inr (map g ys))"
  by (induction rule: list_all2_induct) simp_all

lemma getNestedItems_step:
  assumes wf: "wellFormed w" and sc: "scenes w this = Some sc"
    and IH: "\<And>c. (this, c) \<in> sceneRefs w \<Longrightarrow>
               \<exists>raw. nestedTraversal w c raw \<and>
                  getNestedItems w c False = Some (Inr (uniqBy raw h_sceneItemId))"
  shows "\<exists>raws. list_all2 (nestedTraversal w)
                  (map h_sourceId (filter (isSceneItem w) (map (handleOf this) (items sc)))) raws \<and>
            (\<forall>e. getNestedItems w this e =
               Some (Inr (uniqBy
                 (filter (\<lambda>sceneItem. \<not> e \<or> \<not> isSceneItem w sceneItem)
                    (map (handleOf this) (items sc) @ concat (map (\<lambda>r. uniqBy r h_sceneItemId) raws)))
                 h_sceneItemId)))"
proof -
  let ?own = "map (handleOf this) (items sc)"
  let ?children = "filter (isSceneItem w) ?own"
  let ?R = "\<lambda>h raw. nestedTraversal w (h_sourceId h) raw \<and>
      getNestedItems w (h_sourceId h) False = Some (Inr (uniqBy raw h_sceneItemId))"
  from wf sc have d: "None \<notin> set (items sc)"
    by (auto simp: wellFormed_def)
  have ref: "(this, h_sourceId h) \<in> sceneRefs w" if "h \<in> set ?children" for h
  proof -
    from that obtain slot where slot: "slot \<in> set (items sc)" "h = handleOf this slot"
      "isSceneSource w (h_sourceId h)"
      by (auto simp: isSceneItem_source)
    with d obtain m where "slot = Some m"
      by (cases slot) auto
    with slot sc show ?thesis
      by (auto simp: sceneRefs_def handleOf_def)
  qed
  have "\<exists>raw. ?R h raw" if "h \<in> set ?children" for h
    using ref [OF that] by (rule IH)
  then obtain raws where raws: "list_all2 ?R ?children raws"
    using ex_list_all2 [of ?children ?R] by blast
  have scene: "getScene w (h_sourceId h) = Inr (h_sourceId h)" if "h \<in> set ?children" for h
    using that wf by (auto simp: getScene_def wellFormed_def isSceneItem_source)
  have "list_all2 (\<lambda>h raw. (case getScene w (h_sourceId h) of
                       Inl e \<Rightarrow> Some (Inl e)
                     | Inr child \<Rightarrow> getNestedItems w child False) =
            Some (Inr (uniqBy raw h_sceneItemId))) ?children raws"
    using raws
    by (rule list.rel_mono_strong) (simp add: scene)
  then have m: "mapM (\<lambda>sceneItem.
                     case getScene w (h_sourceId sceneItem) of
                       Inl e \<Rightarrow> Some (Inl e)
                     | Inr child \<Rightarrow> getNestedItems w child False) ?children =
      Some (Inr (map (\<lambda>r. uniqBy r h_sceneItemId) raws))"
    by (rule mapM_list_all2)
  have "getNestedItems w this e =
               Some (Inr (uniqBy
                 (filter (\<lambda>sceneItem. \<not> e \<or> \<not> isSceneItem w sceneItem)
                    (?own @ concat (map (\<lambda>r. uniqBy r h_sceneItemId) raws)))
                 h_sceneItemId))" for e
    by (subst getNestedItems.simps) (simp add: getItems_wellFormed [OF wf sc] m)
  moreover have "list_all2 (nestedTraversal w) (map h_sourceId ?children) raws"
    using raws by (simp add: list_all2_map1 list_all2_mono)
  ultimately show ?thesis by blast
qed

lemma getNestedItems_exact:
  assumes "wellFormed w" and "wf ((sceneRefs w)\<inverse>)" and "scenes w this \<noteq> None"
  shows "\<exists>raw. nestedTraversal w this raw \<and>
           getNestedItems w this False = Some (Inr (uniqBy raw h_sceneItemId))"
  using assms(2,3)
proof (induction this rule: wf_induct_rule)
  case (less this)
  from less.prems obtain sc where sc: "scenes w this = Some sc" by auto
  from assms(1) sc have d: "None \<notin> set (items sc)"
    by (auto simp: wellFormed_def)
  have "\<exists>raw. nestedTraversal w c raw \<and>
          getNestedItems w c False = Some (Inr (uniqBy raw h_sceneItemId))"
    if "(this, c) \<in> sceneRefs w" for c
  proof (rule less.IH)
    from that show "(c, this) \<in> (sceneRefs w)\<inverse>" by simp
    from that have "isSceneSource w c"
      by (auto simp: sceneRefs_def)
    with assms(1) show "scenes w c \<noteq> None"
      by (simp add: wellFormed_def)
  qed
  from getNestedItems_step [OF assms(1) sc this] obtain raws where
    raws: "list_all2 (nestedTraversal w)
                  (map h_sourceId (filter (isSceneItem w) (map (handleOf this) (items sc)))) raws"
    and res: "\<And>e. getNestedItems w this e =
               Some (Inr (uniqBy
                 (filter (\<lambda>sceneItem. \<not> e \<or> \<not> isSceneItem w sceneItem)
                    (map (handleOf this) (items sc) @ concat (map (\<lambda>r. uniqBy r h_sceneItemId) raws)))
                 h_sceneItemId))"
    by blast
  have "nestedTraversal w this (map (handleOf this) (items sc) @ concat raws)"
    using sc d refl raws by (rule nestedTraversal.intros)
  moreover have "getNestedItems w this False =
      Some (Inr (uniqBy (map (handleOf this) (items sc) @ concat raws) h_sceneItemId))"
    using res [of False] by (simp add: uniqBy_nested)
  ultimately show ?case by blast
qed

text \<open>The traversal of a scene is unique.\<close>

lemma list_all2_unique:
  "list_all2 (\<lambda>x y. \<forall>z. R x z \<longrightarrow> y = z) xs ys \<Longrightarrow> list_all2 R xs zs \<Longrightarrow> ys = zs"
proof (induction xs arbitrary: ys zs)
  case Nil
  then show ?case by simp
next
  case (Cons x xs)
  then show ?case
    by (auto simp: list_all2_Cons1)
qed

lemma nestedTraversal_unique:
  "nestedTraversal w this a \<Longrightarrow> nestedTraversal w this b \<Longrightarrow> a = b"
proof (induction arbitrary: b rule: nestedTraversal.induct)
  case (1 w this sc own nested)
  from "1.prems" "1.hyps"(1,3) obtain nested' where
    b: "b = own @ concat nested'"
    and n': "list_all2 (nestedTraversal w) (map h_sourceId (filter (isSceneItem w) own)) nested'"
    by (auto elim: nestedTraversal.cases)
  from "1.IH" have "list_all2 (\<lambda>c raw. \<forall>z. nestedTraversal w c z \<longrightarrow> raw = z)
      (map h_sourceId (filter (isSceneItem w) own)) nested"
    by (rule list_all2_mono) simp
  from list_all2_unique [OF this n'] b show ?case by simp
qed

lemma nestedTraversal_wDiamond_C: "nestedTraversal wDiamond ''C'' [hC1]"
  using nestedTraversal.intros [of wDiamond "''C''" _ "[hC1]" "[]"]
  by (simp add: wDiamond_def handleOf_def hC1_def newItem_ids isSceneItem_def cameraSource_def)

lemma nestedTraversal_wDiamond_D: "nestedTraversal wDiamond ''D'' [hD1, hC1]"
  using nestedTraversal.intros [of wDiamond "''D''" _ "[hD1]" "[[hC1]]"] nestedTraversal_wDiamond_C
  by (simp add: wDiamond_def handleOf_def hD1_def newItem_ids isSceneItem_def sceneSource_def)

lemma nestedTraversal_wDiamond_S: "nestedTraversal wDiamond ''S'' [hS1, hS2, hC1, hD1, hC1]"
  using nestedTraversal.intros [of wDiamond "''S''" _ "[hS1, hS2]" "[[hC1], [hD1, hC1]]"]
    nestedTraversal_wDiamond_C nestedTraversal_wDiamond_D
  by (simp add: wDiamond_def handleOf_def hS1_def hS2_def newItem_ids isSceneItem_def sceneSource_def)

lemma getNestedItems_wDiamond:
  "getNestedItems wDiamond ''S'' False = Some (Inr [hS1, hS2, hC1, hD1])"
  by code_simp

text \<open>
  Claim C9. On a well-formed store with finitely many scenes and an acyclic graph,
  \<open>getNestedItems\<close> returns the traversal (the items of this scene, then the items of
  each nested scene, depth first) deduplicated by \<open>sceneItemId\<close> with the first occurrence
  kept; the deduplication done inside the recursive calls does not change that. With or
  without \<open>excludeScenes\<close>, no \<open>sceneItemId\<close> appears twice in the result, also when a
  child scene is reached along two paths: in \<open>wDiamond\<close> the traversal meets the item of
  \<open>C\<close> twice and the result holds it once.
\<close>

theorem getNestedItems_dedup:
  assumes "wellFormed w" and "finite (dom (scenes w))" and "acyclic (sceneRefs w)"
    and "scenes w this \<noteq> None"
  shows "(\<exists>raw. nestedTraversal w this raw \<and>
            getNestedItems w this False = Some (Inr (uniqBy raw h_sceneItemId))) \<and>
         (\<exists>result. getNestedItems w this excludeScenes = Some (Inr result) \<and>
            distinct (map h_sceneItemId result))"
proof
  have wf: "wf ((sceneRefs w)\<inverse>)"
    using assms(1-3) by (rule wf_sceneRefs)
  show "\<exists>raw. nestedTraversal w this raw \<and>
            getNestedItems w this False = Some (Inr (uniqBy raw h_sceneItemId))"
    using assms(1) wf assms(4) by (rule getNestedItems_exact)
  from assms(4) obtain sc where sc: "scenes w this = Some sc" by auto
  have "\<exists>raw. nestedTraversal w c raw \<and>
          getNestedItems w c False = Some (Inr (uniqBy raw h_sceneItemId))"
    if "(this, c) \<in> sceneRefs w" for c
  proof (rule getNestedItems_exact [OF assms(1) wf])
    from that have "isSceneSource w c"
      by (auto simp: sceneRefs_def)
    with assms(1) show "scenes w c \<noteq> None"
      by (simp add: wellFormed_def)
  qed
  from getNestedItems_step [OF assms(1) sc this]
  show "\<exists>result. getNestedItems w this excludeScenes = Some (Inr result) \<and>
            distinct (map h_sceneItemId result)"
    by (auto simp: uniqBy_distinct)
qed

theorem getNestedItems_dedup_witness:
  "(\<exists>raw. nestedTraversal wDiamond ''S'' raw \<and>
      getNestedItems wDiamond ''S'' False = Some (Inr (uniqBy raw h_sceneItemId))) \<and>
   (\<exists>result. getNestedItems wDiamond ''S'' False = Some (Inr result) \<and>
      distinct (map h_sceneItemId result)) \<and>
   nestedTraversal wDiamond ''S'' [hS1, hS2, hC1, hD1, hC1] \<and>
   getNestedItems wDiamond ''S'' False = Some (Inr [hS1, hS2, hC1, hD1])"
proof -
  have "scenes wDiamond ''S'' \<noteq> None"
    by (simp add: wDiamond_def)
  from getNestedItems_dedup [OF wellFormed_wDiamond finite_wDiamond acyclic_wDiamond this, of False]
    nestedTraversal_wDiamond_S getNestedItems_wDiamond
  show ?thesis by blast
qed

end
